theory Spec2Isabelle
  imports Main "HOL-Library.FSet" "HOL-Library.Multiset"
begin

section \<open>Key rotator (keyRotator.js)\<close>

text \<open>
  A JavaScript string is modelled as an Isabelle \<open>string\<close>. The values that flow through
  the key slots of the rotator are strings, or \<open>undefined\<close> when an array is read out
  of range; \<open>null\<close> is the \<open>None\<close> of an option around them.
\<close>

datatype jsval = Undefined | Str string

text \<open>JavaScript truthiness of a nullable key: \<open>null\<close>, \<open>undefined\<close> and \<open>''\<close> are falsy.\<close>

fun truthy :: "jsval option \<Rightarrow> bool" where
  "truthy None = False"
| "truthy (Some Undefined) = False"
| "truthy (Some (Str s)) = (s \<noteq> [])"

text \<open>\<open>keys.includes(v)\<close> on an array of strings (strict equality).\<close>

fun arrayIncludes :: "string list \<Rightarrow> jsval option \<Rightarrow> bool" where
  "arrayIncludes keys (Some (Str s)) = (s \<in> set keys)"
| "arrayIncludes keys _ = False"

record KeyRotator =
  apiKeys :: "string list"
  lastFailedKey :: "jsval option"

text \<open>
  The request context. \<open>currentIndex\<close> is a JavaScript number: \<open>None\<close> stands for \<open>NaN\<close>,
  which \<open>(i + 1) % 0\<close> yields on an empty key list. The two \<open>Set\<close>s are finite sets, their
  \<open>size\<close> is \<open>fcard\<close>. The fields \<open>apiType\<close> (log output only) and \<open>originalApiKeys\<close>
  (never read) are left out.
\<close>

record RequestKeyContext =
  apiKeys :: "string list"
  currentIndex :: "nat option"
  triedKeys :: "jsval fset"
  rateLimitedKeys :: "jsval fset"
  lastFailedKeyForThisRequest :: "jsval option"

subsection \<open>smartShuffle\<close>

text \<open>
  \<open>Math.random()\<close> lies in \<open>[0, 1)\<close>, so \<open>Math.floor(Math.random() * (i + 1))\<close> is some
  index in \<open>0..i\<close>. The random source is a parameter \<open>rnd\<close>: the draw of the
  iteration with loop variable \<open>i\<close> is \<open>rnd i mod (i + 1)\<close>, which ranges over exactly
  these indices as \<open>rnd\<close> ranges over all functions.
\<close>

definition swap :: "'a list \<Rightarrow> nat \<Rightarrow> nat \<Rightarrow> 'a list" where
  "swap xs i j = xs[i := xs ! j, j := xs ! i]"

text \<open>The loop \<open>for (let i = shuffled.length - 1; i > 0; i--)\<close>, entered at \<open>i\<close>.\<close>

fun fisherYates :: "(nat \<Rightarrow> nat) \<Rightarrow> nat \<Rightarrow> 'a list \<Rightarrow> 'a list" where
  "fisherYates rnd 0 shuffled = shuffled"
| "fisherYates rnd (Suc i) shuffled =
     (let j = rnd (Suc i) mod (Suc i + 1)
      in fisherYates rnd i (swap shuffled (Suc i) j))"

text \<open>
  \<open>shuffled.indexOf(k)\<close> followed by \<open>splice(index, 1)\<close> removes the first occurrence
  of \<open>k\<close>, which is \<open>remove1\<close>; \<open>indexOf\<close> is \<open>-1\<close> when \<open>k\<close> does not occur.
\<close>

fun smartShuffle :: "(nat \<Rightarrow> nat) \<Rightarrow> string list \<Rightarrow> jsval option \<Rightarrow> string list" where
  "smartShuffle rnd keys lastFailed =
     (let shuffled = fisherYates rnd (length keys - 1) keys
      in if truthy lastFailed \<and> arrayIncludes keys lastFailed
         then (case lastFailed of
                 Some (Str k) \<Rightarrow>
                   if k \<in> set shuffled then remove1 k shuffled @ [k] else shuffled
               | _ \<Rightarrow> shuffled)
         else shuffled)"

subsection \<open>The request context and its operations\<close>

definition newRequestKeyContext ::
  "(nat \<Rightarrow> nat) \<Rightarrow> string list \<Rightarrow> jsval option \<Rightarrow> RequestKeyContext" where
  "newRequestKeyContext rnd keys lastFailed =
     \<lparr> RequestKeyContext.apiKeys = smartShuffle rnd keys lastFailed,
       currentIndex = Some 0,
       triedKeys = {||},
       rateLimitedKeys = {||},
       lastFailedKeyForThisRequest = None \<rparr>"

definition createRequestContext :: "(nat \<Rightarrow> nat) \<Rightarrow> KeyRotator \<Rightarrow> RequestKeyContext" where
  "createRequestContext rnd r =
     newRequestKeyContext rnd (KeyRotator.apiKeys r) (lastFailedKey r)"

definition updateLastFailedKey :: "jsval option \<Rightarrow> KeyRotator \<Rightarrow> KeyRotator" where
  "updateLastFailedKey failedKey r = r\<lparr>lastFailedKey := failedKey\<rparr>"

text \<open>\<open>this.apiKeys[this.currentIndex]\<close>: out of range, or at \<open>NaN\<close>, the read is \<open>undefined\<close>.\<close>

definition keyAt :: "string list \<Rightarrow> nat option \<Rightarrow> jsval" where
  "keyAt keys idx =
     (case idx of
        None \<Rightarrow> Undefined
      | Some i \<Rightarrow> if i < length keys then Str (keys ! i) else Undefined)"

text \<open>\<open>(this.currentIndex + 1) % this.apiKeys.length\<close>: \<open>NaN\<close> stays \<open>NaN\<close>, and \<open>% 0\<close> is \<open>NaN\<close>.\<close>

definition advance :: "nat option \<Rightarrow> nat \<Rightarrow> nat option" where
  "advance idx n =
     (case idx of
        None \<Rightarrow> None
      | Some i \<Rightarrow> if n = 0 then None else Some ((i + 1) mod n))"

text \<open>The \<open>while (attempts < this.apiKeys.length)\<close> loop of \<open>getNextKey\<close>.\<close>

function getNextKey_loop :: "nat \<Rightarrow> RequestKeyContext \<Rightarrow> jsval option \<times> RequestKeyContext" where
  "getNextKey_loop attempts c =
     (if attempts < length (RequestKeyContext.apiKeys c)
      then (let key = keyAt (RequestKeyContext.apiKeys c) (currentIndex c)
            in if key |\<notin>| triedKeys c
               then (Some key, c\<lparr>triedKeys := finsert key (triedKeys c)\<rparr>)
               else getNextKey_loop (attempts + 1)
                      (c\<lparr>currentIndex :=
                           advance (currentIndex c) (length (RequestKeyContext.apiKeys c))\<rparr>))
      else (None, c))"
  by pat_completeness auto
termination
  by (relation "measure (\<lambda>(attempts, c). length (RequestKeyContext.apiKeys c) - attempts)") auto

declare getNextKey_loop.simps [simp del]

definition getNextKey :: "RequestKeyContext \<Rightarrow> jsval option \<times> RequestKeyContext" where
  "getNextKey c =
     (if fcard (triedKeys c) \<ge> length (RequestKeyContext.apiKeys c)
      then (None, c)
      else getNextKey_loop 0 c)"

definition markKeyAsRateLimited :: "jsval \<Rightarrow> RequestKeyContext \<Rightarrow> RequestKeyContext" where
  "markKeyAsRateLimited key c =
     c\<lparr> rateLimitedKeys := finsert key (rateLimitedKeys c),
        lastFailedKeyForThisRequest := Some key,
        currentIndex := advance (currentIndex c) (length (RequestKeyContext.apiKeys c)) \<rparr>"

definition getLastFailedKey :: "RequestKeyContext \<Rightarrow> jsval option" where
  "getLastFailedKey c = lastFailedKeyForThisRequest c"

definition allTriedKeysRateLimited :: "RequestKeyContext \<Rightarrow> bool" where
  "allTriedKeysRateLimited c =
     (fcard (triedKeys c) > 0 \<and> fcard (rateLimitedKeys c) = fcard (triedKeys c))"

definition allKeysTried :: "RequestKeyContext \<Rightarrow> bool" where
  "allKeysTried c = (fcard (triedKeys c) \<ge> length (RequestKeyContext.apiKeys c))"

text \<open>
  A client of a context calls its methods in any order. The methods that change the
  context are \<open>getNextKey\<close> and \<open>markKeyAsRateLimited\<close>; the others only read it.
  \<open>runOps\<close> performs a sequence of calls and collects what each \<open>getNextKey\<close> returned.
\<close>

datatype ctxOp = GetNextKey | MarkKeyAsRateLimited jsval | ReadOnly

fun runOps :: "ctxOp list \<Rightarrow> RequestKeyContext \<Rightarrow> jsval option list \<times> RequestKeyContext" where
  "runOps [] c = ([], c)"
| "runOps (GetNextKey # ops) c =
     (let (r, c') = getNextKey c; (rs, c'') = runOps ops c' in (r # rs, c''))"
| "runOps (MarkKeyAsRateLimited k # ops) c = runOps ops (markKeyAsRateLimited k c)"
| "runOps (ReadOnly # ops) c = runOps ops c"

text \<open>The keys among the results of a run, without the \<open>null\<close>s.\<close>

fun served :: "'a option list \<Rightarrow> 'a list" where
  "served [] = []"
| "served (None # rs) = served rs"
| "served (Some k # rs) = k # served rs"

text \<open>
  What the constructor establishes and every method keeps: the index is a position of
  the key list (unless the list is empty), and the tried keys are keys of the list.
\<close>

definition idxOk :: "RequestKeyContext \<Rightarrow> bool" where
  "idxOk c =
     (RequestKeyContext.apiKeys c = [] \<or>
      (case currentIndex c of
         Some i \<Rightarrow> i < length (RequestKeyContext.apiKeys c)
       | None \<Rightarrow> False))"

definition ctxInv :: "RequestKeyContext \<Rightarrow> bool" where
  "ctxInv c =
     (idxOk c \<and> triedKeys c |\<subseteq>| fset_of_list (map Str (RequestKeyContext.apiKeys c)))"

text \<open>Every key of the attempt order has been tried.\<close>

definition allTried :: "RequestKeyContext \<Rightarrow> bool" where
  "allTried c = list_all (\<lambda>k. Str k |\<in>| triedKeys c) (RequestKeyContext.apiKeys c)"


section \<open>Properties of the key rotator\<close>

subsection \<open>The shuffle is a rearrangement\<close>

lemma mset_swap_keys: "i < length xs \<Longrightarrow> j < length xs \<Longrightarrow> mset (swap xs i j) = mset xs"
  unfolding swap_def by (simp add: mset_swap)

lemma length_swap [simp]: "length (swap xs i j) = length xs"
  by (simp add: swap_def)

lemma mset_fisherYates: "i < length xs \<or> i = 0 \<Longrightarrow> mset (fisherYates rnd i xs) = mset xs"
proof (induction i arbitrary: xs)
  case 0
  then show ?case by simp
next
  case (Suc i)
  have "rnd (Suc i) mod (Suc i + 1) \<le> Suc i"
    by (simp add: less_Suc_eq_le[symmetric])
  then have j: "rnd (Suc i) mod (Suc i + 1) < length xs"
    using Suc.prems by linarith
  show ?case using Suc j by (simp add: Let_def mset_swap_keys)
qed

lemma mset_shuffled: "mset (fisherYates rnd (length keys - Suc 0) keys) = mset keys"
  by (rule mset_fisherYates) (cases keys; simp)

lemma mset_smartShuffle: "mset (smartShuffle rnd keys h) = mset keys"
  by (auto simp: Let_def mset_shuffled split: option.splits jsval.splits)

lemma set_smartShuffle: "set (smartShuffle rnd keys h) = set keys"
  using mset_smartShuffle by (metis set_mset_mset)

lemma last_smartShuffle:
  "k \<noteq> [] \<Longrightarrow> k \<in> set keys \<Longrightarrow> last (smartShuffle rnd keys (Some (Str k))) = k"
  using mset_shuffled[of rnd keys, THEN mset_eq_setD] by (simp add: Let_def)

declare smartShuffle.simps [simp del]

text \<open>
  C2 (as amended). For every key list and hint, whatever the random draws, the attempt
  order is a rearrangement of the key list: the same keys with the same multiplicities,
  hence the same length. A hint that is a non-empty string occurring in the list ends
  up last. A key list without duplicates gives an attempt order without duplicates.
\<close>

theorem smartShuffle_rearranges:
  "mset (smartShuffle rnd keys h) = mset keys \<and>
   length (smartShuffle rnd keys h) = length keys \<and>
   (\<forall>k. h = Some (Str k) \<and> k \<noteq> [] \<and> k \<in> set keys \<longrightarrow>
        last (smartShuffle rnd keys h) = k) \<and>
   (distinct keys \<longrightarrow> distinct (smartShuffle rnd keys h))"
proof -
  have m: "mset (smartShuffle rnd keys h) = mset keys" by (rule mset_smartShuffle)
  have l: "length (smartShuffle rnd keys h) = length keys"
    using m by (rule mset_eq_length)
  have d: "distinct keys \<longrightarrow> distinct (smartShuffle rnd keys h)"
    using m by (metis mset_eq_imp_distinct_iff)
  show ?thesis using m l d last_smartShuffle by blast
qed

theorem smartShuffle_rearranges_witness:
  "last (smartShuffle (\<lambda>i. 0) [''k1'', ''k2'', ''k3''] (Some (Str ''k2''))) = ''k2'' \<and>
   distinct (smartShuffle (\<lambda>i. 0) [''k1'', ''k2'', ''k3''] (Some (Str ''k2''))) \<and>
   length (smartShuffle (\<lambda>i. 0) [''k1'', ''k2'', ''k3''] (Some (Str ''k2''))) = 3"
  using smartShuffle_rearranges[of "\<lambda>i. 0" "[''k1'', ''k2'', ''k3'']" "Some (Str ''k2'')"]
  by simp

text \<open>
  C2 as stated fails twice. A key list may hold a key twice (the configuration does not
  remove duplicates), and then so does the attempt order. And an empty-string hint is
  falsy, so it is not moved although it is non-null and occurs in the list.
\<close>

theorem smartShuffle_counterexample:
  "\<not> distinct (smartShuffle id [''k1'', ''k1''] None) \<and>
   last (smartShuffle id ['''', ''k1''] (Some (Str ''''))) \<noteq> ''''"
  by (simp add: smartShuffle.simps swap_def)

subsection \<open>The loop of getNextKey\<close>

lemma loop_found:
  "a < length (RequestKeyContext.apiKeys c) \<Longrightarrow>
   keyAt (RequestKeyContext.apiKeys c) (currentIndex c) |\<notin>| triedKeys c \<Longrightarrow>
   getNextKey_loop a c =
     (Some (keyAt (RequestKeyContext.apiKeys c) (currentIndex c)),
      c\<lparr>triedKeys := finsert (keyAt (RequestKeyContext.apiKeys c) (currentIndex c)) (triedKeys c)\<rparr>)"
  by (subst getNextKey_loop.simps) (simp add: Let_def)

lemma loop_next:
  "a < length (RequestKeyContext.apiKeys c) \<Longrightarrow>
   keyAt (RequestKeyContext.apiKeys c) (currentIndex c) |\<in>| triedKeys c \<Longrightarrow>
   getNextKey_loop a c =
     getNextKey_loop (a + 1)
       (c\<lparr>currentIndex := advance (currentIndex c) (length (RequestKeyContext.apiKeys c))\<rparr>)"
  by (subst getNextKey_loop.simps) (simp add: Let_def)

lemma loop_done:
  "\<not> a < length (RequestKeyContext.apiKeys c) \<Longrightarrow> getNextKey_loop a c = (None, c)"
  by (subst getNextKey_loop.simps) simp

lemma loop_cases:
  obtains
    (found) "a < length (RequestKeyContext.apiKeys c)"
            "keyAt (RequestKeyContext.apiKeys c) (currentIndex c) |\<notin>| triedKeys c"
  | (skip) "a < length (RequestKeyContext.apiKeys c)"
            "keyAt (RequestKeyContext.apiKeys c) (currentIndex c) |\<in>| triedKeys c"
  | (exhausted) "\<not> a < length (RequestKeyContext.apiKeys c)"
  by blast

lemma loop_frame:
  "getNextKey_loop a c = (r, c') \<Longrightarrow>
     RequestKeyContext.apiKeys c' = RequestKeyContext.apiKeys c \<and>
     rateLimitedKeys c' = rateLimitedKeys c \<and>
     lastFailedKeyForThisRequest c' = lastFailedKeyForThisRequest c"
proof (induction a c arbitrary: r c' rule: getNextKey_loop.induct)
  case (1 a c)
  show ?case
  proof (cases a c rule: loop_cases)
    case found
    show ?thesis using "1.prems"(1) loop_found[OF found] found(2) by auto
  next
    case skip
    have rec: "getNextKey_loop (a + 1)
        (c\<lparr>currentIndex := advance (currentIndex c) (length (RequestKeyContext.apiKeys c))\<rparr>) = (r, c')"
      using "1.prems"(1) loop_next[OF skip] by simp
    have nn: "\<not> keyAt (RequestKeyContext.apiKeys c) (currentIndex c) |\<notin>| triedKeys c"
      using skip(2) by simp
    show ?thesis using "1.IH"[OF skip(1) refl nn rec] by auto
  next
    case exhausted
    show ?thesis using "1.prems"(1) loop_done[OF exhausted] by auto
  qed
qed

lemma loop_Some:
  "getNextKey_loop a c = (Some k, c') \<Longrightarrow>
     k |\<notin>| triedKeys c \<and> triedKeys c' = finsert k (triedKeys c) \<and>
     k = keyAt (RequestKeyContext.apiKeys c') (currentIndex c')"
proof (induction a c arbitrary: k c' rule: getNextKey_loop.induct)
  case (1 a c)
  show ?case
  proof (cases a c rule: loop_cases)
    case found
    show ?thesis using "1.prems"(1) loop_found[OF found] found(2) by auto
  next
    case skip
    have rec: "getNextKey_loop (a + 1)
        (c\<lparr>currentIndex := advance (currentIndex c) (length (RequestKeyContext.apiKeys c))\<rparr>) = (Some k, c')"
      using "1.prems"(1) loop_next[OF skip] by simp
    have nn: "\<not> keyAt (RequestKeyContext.apiKeys c) (currentIndex c) |\<notin>| triedKeys c"
      using skip(2) by simp
    show ?thesis using "1.IH"[OF skip(1) refl nn rec] by auto
  next
    case exhausted
    show ?thesis using "1.prems"(1) loop_done[OF exhausted] by auto
  qed
qed

lemma loop_None:
  "getNextKey_loop a c = (None, c') \<Longrightarrow> triedKeys c' = triedKeys c"
proof (induction a c arbitrary: c' rule: getNextKey_loop.induct)
  case (1 a c)
  show ?case
  proof (cases a c rule: loop_cases)
    case found
    then show ?thesis using "1.prems" by (simp add: loop_found)
  next
    case skip
    have rec: "getNextKey_loop (a + 1)
        (c\<lparr>currentIndex := advance (currentIndex c) (length (RequestKeyContext.apiKeys c))\<rparr>) = (None, c')"
      using "1.prems"(1) loop_next[OF skip] by simp
    have nn: "\<not> keyAt (RequestKeyContext.apiKeys c) (currentIndex c) |\<notin>| triedKeys c"
      using skip(2) by simp
    show ?thesis using "1.IH"[OF skip(1) refl nn rec] by auto
  next
    case exhausted
    show ?thesis using "1.prems"(1) loop_done[OF exhausted] by auto
  qed
qed

lemma idxOk_advance:
  "idxOk c \<Longrightarrow> idxOk (c\<lparr>currentIndex := advance (currentIndex c) (length (RequestKeyContext.apiKeys c))\<rparr>)"
  by (auto simp: idxOk_def advance_def split: option.splits)

lemma idxOk_tried: "idxOk (c\<lparr>triedKeys := T\<rparr>) = idxOk c"
  by (simp add: idxOk_def split: option.splits)

lemma loop_idxOk:
  "getNextKey_loop a c = (r, c') \<Longrightarrow> idxOk c \<Longrightarrow> idxOk c'"
proof (induction a c arbitrary: r c' rule: getNextKey_loop.induct)
  case (1 a c)
  show ?case
  proof (cases a c rule: loop_cases)
    case found
    show ?thesis using "1.prems" loop_found[OF found] by (auto simp: idxOk_tried)
  next
    case skip
    have rec: "getNextKey_loop (a + 1)
        (c\<lparr>currentIndex := advance (currentIndex c) (length (RequestKeyContext.apiKeys c))\<rparr>) = (r, c')"
      using "1.prems"(1) loop_next[OF skip] by simp
    have nn: "\<not> keyAt (RequestKeyContext.apiKeys c) (currentIndex c) |\<notin>| triedKeys c"
      using skip(2) by simp
    show ?thesis using "1.IH"[OF skip(1) refl nn rec idxOk_advance[OF "1.prems"(2)]] .
  next
    case exhausted
    show ?thesis using "1.prems" loop_done[OF exhausted] by auto
  qed
qed

lemma loop_None_scanned:
  "getNextKey_loop a c = (None, c') \<Longrightarrow> currentIndex c = Some i \<Longrightarrow>
   i < length (RequestKeyContext.apiKeys c) \<Longrightarrow>
   t < length (RequestKeyContext.apiKeys c) - a \<Longrightarrow>
   Str (RequestKeyContext.apiKeys c ! ((i + t) mod length (RequestKeyContext.apiKeys c))) |\<in>| triedKeys c"
proof (induction a c arbitrary: c' i t rule: getNextKey_loop.induct)
  case (1 a c)
  let ?n = "length (RequestKeyContext.apiKeys c)"
  let ?c1 = "c\<lparr>currentIndex := advance (currentIndex c) ?n\<rparr>"
  from "1.prems" have lt: "a < ?n" by simp
  have kat: "keyAt (RequestKeyContext.apiKeys c) (currentIndex c) = Str (RequestKeyContext.apiKeys c ! i)"
    using "1.prems"(2,3) by (simp add: keyAt_def)
  show ?case
  proof (cases a c rule: loop_cases)
    case found
    show ?thesis using "1.prems"(1) loop_found[OF found] by simp
  next
    case exhausted
    then show ?thesis using lt by simp
  next
    case skip
    have rec: "getNextKey_loop (a + 1) ?c1 = (None, c')"
      using "1.prems"(1) loop_next[OF skip] by simp
    show ?thesis
    proof (cases t)
      case 0
      then show ?thesis using skip(2) kat "1.prems"(3) by simp
    next
      case (Suc t')
      have n0: "?n \<noteq> 0" using "1.prems"(3) by auto
      have idx1: "currentIndex ?c1 = Some ((i + 1) mod ?n)"
        using "1.prems"(2) n0 by (simp add: advance_def)
      have r1: "(i + 1) mod ?n < length (RequestKeyContext.apiKeys ?c1)"
        using n0 by simp
      have r2: "t' < length (RequestKeyContext.apiKeys ?c1) - (a + 1)"
        using "1.prems"(4) Suc by simp
      have "Str (RequestKeyContext.apiKeys ?c1 ! (((i + 1) mod ?n + t') mod length (RequestKeyContext.apiKeys ?c1))) |\<in>| triedKeys ?c1"
        by (rule "1.IH"[OF lt refl _ rec idx1 r1 r2]) (use skip(2) in simp)
      moreover have "((i + 1) mod ?n + t') mod ?n = (i + t) mod ?n"
        using Suc by (simp add: mod_add_left_eq)
      ultimately show ?thesis by simp
    qed
  qed
qed


lemma getNextKey_frame:
  "getNextKey c = (r, c') \<Longrightarrow>
     RequestKeyContext.apiKeys c' = RequestKeyContext.apiKeys c \<and>
     rateLimitedKeys c' = rateLimitedKeys c \<and>
     lastFailedKeyForThisRequest c' = lastFailedKeyForThisRequest c"
  using loop_frame[of 0 c r c'] by (auto simp: getNextKey_def split: if_splits)

lemma getNextKey_Some:
  "getNextKey c = (Some k, c') \<Longrightarrow>
     k |\<notin>| triedKeys c \<and> triedKeys c' = finsert k (triedKeys c) \<and>
     k = keyAt (RequestKeyContext.apiKeys c') (currentIndex c') \<and>
     fcard (triedKeys c) < length (RequestKeyContext.apiKeys c)"
  using loop_Some[of 0 c k c'] by (auto simp: getNextKey_def split: if_splits)

lemma getNextKey_None:
  "getNextKey c = (None, c') \<Longrightarrow> triedKeys c' = triedKeys c"
  using loop_None[of 0 c c'] by (auto simp: getNextKey_def split: if_splits)

lemma getNextKey_idxOk:
  "getNextKey c = (r, c') \<Longrightarrow> idxOk c \<Longrightarrow> idxOk c'"
  using loop_idxOk[of 0 c r c'] by (auto simp: getNextKey_def split: if_splits)

lemma keyAt_in_keys:
  "idxOk c \<Longrightarrow> RequestKeyContext.apiKeys c \<noteq> [] \<Longrightarrow>
   keyAt (RequestKeyContext.apiKeys c) (currentIndex c) |\<in>| fset_of_list (map Str (RequestKeyContext.apiKeys c))"
  by (auto simp: idxOk_def keyAt_def fset_of_list.rep_eq split: option.splits)

lemma getNextKey_Some_in_keys:
  assumes "getNextKey c = (Some k, c')" "idxOk c"
  shows "k |\<in>| fset_of_list (map Str (RequestKeyContext.apiKeys c))"
proof -
  have ok: "idxOk c'" using getNextKey_idxOk[OF assms] .
  have keys: "RequestKeyContext.apiKeys c' = RequestKeyContext.apiKeys c"
    using getNextKey_frame[OF assms(1)] by simp
  have ne: "RequestKeyContext.apiKeys c \<noteq> []"
    using getNextKey_Some[OF assms(1)] by auto
  show ?thesis
    using keyAt_in_keys[OF ok] keys ne getNextKey_Some[OF assms(1)] by simp
qed

lemma getNextKey_inv:
  assumes "getNextKey c = (r, c')" "ctxInv c"
  shows "ctxInv c'"
proof (cases r)
  case None
  then show ?thesis
    using assms getNextKey_None[of c c'] getNextKey_idxOk[of c r c'] getNextKey_frame[of c r c']
    by (simp add: ctxInv_def)
next
  case (Some k)
  then show ?thesis
    using assms getNextKey_Some[of c k c'] getNextKey_idxOk[of c r c'] getNextKey_frame[of c r c']
      getNextKey_Some_in_keys[of c k c']
    by (simp add: ctxInv_def)
qed

lemma allTried_iff:
  "allTried c \<longleftrightarrow> fset_of_list (map Str (RequestKeyContext.apiKeys c)) |\<subseteq>| triedKeys c"
  by (auto simp: allTried_def list_all_iff fset_of_list.rep_eq)

lemma fcard_keys_le:
  "fcard (fset_of_list (map Str keys)) \<le> length keys"
proof -
  have "fcard (fset_of_list (map Str keys)) = card (set (map Str keys))"
    by (simp add: fcard.rep_eq fset_of_list.rep_eq)
  also have "\<dots> \<le> length (map Str keys)" by (rule card_length)
  finally show ?thesis by simp
qed

lemma getNextKey_None_iff:
  assumes "ctxInv c"
  shows "fst (getNextKey c) = None \<longleftrightarrow> allTried c"
proof
  assume n: "fst (getNextKey c) = None"
  show "allTried c"
  proof (cases "fcard (triedKeys c) \<ge> length (RequestKeyContext.apiKeys c)")
    case True
    have sub: "triedKeys c |\<subseteq>| fset_of_list (map Str (RequestKeyContext.apiKeys c))"
      using assms by (simp add: ctxInv_def)
    have "fcard (fset_of_list (map Str (RequestKeyContext.apiKeys c))) \<le> fcard (triedKeys c)"
      using True fcard_keys_le[of "RequestKeyContext.apiKeys c"] by linarith
    then have "triedKeys c = fset_of_list (map Str (RequestKeyContext.apiKeys c))"
      using sub by (rule fcard_seteq[rotated])
    then show ?thesis by (simp add: allTried_iff)
  next
    case False
    let ?keys = "RequestKeyContext.apiKeys c"
    obtain c' where lp: "getNextKey_loop 0 c = (None, c')"
      using n False by (cases "getNextKey_loop 0 c") (auto simp: getNextKey_def)
    have ne: "?keys \<noteq> []" using False by auto
    then obtain i where i: "currentIndex c = Some i" "i < length ?keys"
      using assms by (auto simp: ctxInv_def idxOk_def split: option.splits)
    have "Str (?keys ! j) |\<in>| triedKeys c" if j: "j < length ?keys" for j
    proof -
      let ?n = "length ?keys"
      let ?t = "(j + ?n - i) mod ?n"
      have "0 < ?n" using j by auto
      then have "?t < ?n - 0" by simp
      then have "Str (?keys ! ((i + ?t) mod ?n)) |\<in>| triedKeys c"
        by (rule loop_None_scanned[OF lp i])
      moreover have "(i + ?t) mod ?n = j"
      proof -
        have "(i + ?t) mod ?n = (i + (j + ?n - i)) mod ?n"
          by (simp add: mod_add_right_eq)
        also have "i + (j + ?n - i) = j + ?n" using i(2) by simp
        finally show ?thesis using j by simp
      qed
      ultimately show ?thesis by simp
    qed
    then show ?thesis
      by (auto simp: allTried_def list_all_length)
  qed
next
  assume a: "allTried c"
  show "fst (getNextKey c) = None"
  proof (rule ccontr)
    assume "fst (getNextKey c) \<noteq> None"
    then obtain k c' where g: "getNextKey c = (Some k, c')"
      by (cases "getNextKey c") auto
    have "k |\<in>| fset_of_list (map Str (RequestKeyContext.apiKeys c))"
      using getNextKey_Some_in_keys[OF g] assms by (simp add: ctxInv_def)
    then have "k |\<in>| triedKeys c" using a by (auto simp: allTried_iff)
    then show False using getNextKey_Some[OF g] by blast
  qed
qed

lemma markKeyAsRateLimited_inv: "ctxInv c \<Longrightarrow> ctxInv (markKeyAsRateLimited k c)"
  by (auto simp: ctxInv_def markKeyAsRateLimited_def idxOk_def advance_def split: option.splits)

lemma markKeyAsRateLimited_tried [simp]: "triedKeys (markKeyAsRateLimited k c) = triedKeys c"
  by (simp add: markKeyAsRateLimited_def)

lemma markKeyAsRateLimited_keys [simp]:
  "RequestKeyContext.apiKeys (markKeyAsRateLimited k c) = RequestKeyContext.apiKeys c"
  by (simp add: markKeyAsRateLimited_def)

lemma newRequestKeyContext_inv: "ctxInv (newRequestKeyContext rnd keys h)"
  by (simp add: ctxInv_def idxOk_def newRequestKeyContext_def del: smartShuffle.simps)

lemma runOps_inv: "ctxInv c \<Longrightarrow> ctxInv (snd (runOps ops c))"
proof (induction ops arbitrary: c)
  case Nil
  then show ?case by simp
next
  case (Cons op ops)
  show ?case
  proof (cases op)
    case GetNextKey
    obtain r c' where g: "getNextKey c = (r, c')" by (cases "getNextKey c")
    have "ctxInv c'" using getNextKey_inv[OF g Cons.prems] .
    from Cons.IH[OF this] show ?thesis using GetNextKey g by (cases "runOps ops c'") auto
  next
    case (MarkKeyAsRateLimited k)
    then show ?thesis using Cons.IH[OF markKeyAsRateLimited_inv[OF Cons.prems]] by simp
  next
    case ReadOnly
    then show ?thesis using Cons by simp
  qed
qed

lemma runOps_keys: "RequestKeyContext.apiKeys (snd (runOps ops c)) = RequestKeyContext.apiKeys c"
proof (induction ops arbitrary: c)
  case Nil
  then show ?case by simp
next
  case (Cons op ops)
  show ?case
  proof (cases op)
    case GetNextKey
    obtain r c' where g: "getNextKey c = (r, c')" by (cases "getNextKey c")
    show ?thesis using GetNextKey g Cons.IH[of c'] getNextKey_frame[OF g]
      by (cases "runOps ops c'") auto
  next
    case (MarkKeyAsRateLimited k)
    then show ?thesis using Cons.IH[of "markKeyAsRateLimited k c"] by simp
  next
    case ReadOnly
    then show ?thesis using Cons by simp
  qed
qed

lemma runOps_served:
  "runOps ops c = (rs, c') \<Longrightarrow>
     distinct (served rs) \<and> fset_of_list (served rs) |\<inter>| triedKeys c = {||} \<and>
     triedKeys c' = triedKeys c |\<union>| fset_of_list (served rs)"
proof (induction ops arbitrary: c rs c')
  case Nil
  then show ?case by simp
next
  case (Cons op ops)
  show ?case
  proof (cases op)
    case GetNextKey
    obtain r c1 where g: "getNextKey c = (r, c1)" by (cases "getNextKey c")
    obtain rs1 c2 where ro: "runOps ops c1 = (rs1, c2)" by (cases "runOps ops c1")
    have res: "rs = r # rs1" "c' = c2" using Cons.prems GetNextKey g ro by simp_all
    note ih = Cons.IH[OF ro]
    show ?thesis
    proof (cases r)
      case None
      then show ?thesis using ih res getNextKey_None[of c c1] g by simp
    next
      case (Some k)
      have k: "k |\<notin>| triedKeys c" "triedKeys c1 = finsert k (triedKeys c)"
        using getNextKey_Some[of c k c1] g Some by blast+
      show ?thesis using ih res Some k by (auto simp: fset_of_list.rep_eq)
    qed
  next
    case (MarkKeyAsRateLimited k)
    then show ?thesis using Cons.IH[of "markKeyAsRateLimited k c" rs c'] Cons.prems by simp
  next
    case ReadOnly
    then show ?thesis using Cons by simp
  qed
qed

lemma allTried_mono: "allTried c \<Longrightarrow> RequestKeyContext.apiKeys c' = RequestKeyContext.apiKeys c \<Longrightarrow>
   triedKeys c |\<subseteq>| triedKeys c' \<Longrightarrow> allTried c'"
  by (auto simp: allTried_def list_all_iff)

lemma runOps_allTried:
  "ctxInv c \<Longrightarrow> allTried c \<Longrightarrow> served (fst (runOps ops c)) = []"
proof (induction ops arbitrary: c)
  case Nil
  then show ?case by simp
next
  case (Cons op ops)
  show ?case
  proof (cases op)
    case GetNextKey
    obtain r c1 where g: "getNextKey c = (r, c1)" by (cases "getNextKey c")
    have r: "r = None" using getNextKey_None_iff[OF Cons.prems(1)] Cons.prems(2) g by simp
    have inv1: "ctxInv c1" using getNextKey_inv[OF g Cons.prems(1)] .
    have "allTried c1"
      using allTried_mono[OF Cons.prems(2), of c1] getNextKey_frame[OF g] getNextKey_None[of c c1] g r
      by simp
    from Cons.IH[OF inv1 this] show ?thesis using GetNextKey g r
      by (cases "runOps ops c1") auto
  next
    case (MarkKeyAsRateLimited k)
    have "allTried (markKeyAsRateLimited k c)"
      using allTried_mono[OF Cons.prems(2), of "markKeyAsRateLimited k c"] by simp
    from Cons.IH[OF markKeyAsRateLimited_inv[OF Cons.prems(1)] this]
    show ?thesis using MarkKeyAsRateLimited by simp
  next
    case ReadOnly
    then show ?thesis using Cons by simp
  qed
qed


text \<open>
  C5. Take any context as the constructor builds it (any keys, hint and random draws)
  and any sequence of method calls on it. In the context reached: a key that
  \<open>getNextKey\<close> returns was not in \<open>triedKeys\<close> before and is in it afterwards;
  \<open>triedKeys\<close> never shrinks, under \<open>getNextKey\<close>, \<open>markKeyAsRateLimited\<close> or any further
  calls; \<open>getNextKey\<close> returns \<open>null\<close> exactly when every key of the attempt order has
  been tried; and the keys served over the whole sequence are pairwise different.
\<close>

theorem getNextKey_contract:
  assumes "c = snd (runOps ops (newRequestKeyContext rnd keys hint))"
  shows "(\<forall>k c'. getNextKey c = (Some k, c') \<longrightarrow>
            k |\<notin>| triedKeys c \<and> triedKeys c' = finsert k (triedKeys c)) \<and>
         triedKeys c |\<subseteq>| triedKeys (snd (getNextKey c)) \<and>
         triedKeys (markKeyAsRateLimited k' c) = triedKeys c \<and>
         triedKeys c |\<subseteq>| triedKeys (snd (runOps ops' c)) \<and>
         (fst (getNextKey c) = None \<longleftrightarrow> allTried c) \<and>
         distinct (served (fst (runOps ops (newRequestKeyContext rnd keys hint))))"
proof -
  have inv: "ctxInv c"
    using assms runOps_inv[OF newRequestKeyContext_inv] by simp
  have a: "\<forall>k c'. getNextKey c = (Some k, c') \<longrightarrow>
            k |\<notin>| triedKeys c \<and> triedKeys c' = finsert k (triedKeys c)"
    using getNextKey_Some by blast
  have b: "triedKeys c |\<subseteq>| triedKeys (snd (getNextKey c))"
  proof (cases "getNextKey c")
    case (Pair r c')
    then show ?thesis
      using getNextKey_None[of c c'] getNextKey_Some[of c _ c'] by (cases r) auto
  qed
  have d: "triedKeys c |\<subseteq>| triedKeys (snd (runOps ops' c))"
    using runOps_served[of ops' c "fst (runOps ops' c)" "snd (runOps ops' c)"] by auto
  have e: "fst (getNextKey c) = None \<longleftrightarrow> allTried c"
    by (rule getNextKey_None_iff[OF inv])
  have f: "distinct (served (fst (runOps ops (newRequestKeyContext rnd keys hint))))"
    using runOps_served[of ops "newRequestKeyContext rnd keys hint"
        "fst (runOps ops (newRequestKeyContext rnd keys hint))"
        "snd (runOps ops (newRequestKeyContext rnd keys hint))"] by simp
  show ?thesis using a b d e f by simp
qed

theorem getNextKey_contract_witness:
  "fst (getNextKey (snd (runOps [GetNextKey, MarkKeyAsRateLimited (Str ''k1''), GetNextKey]
          (newRequestKeyContext (\<lambda>i. 0) [''k1'', ''k2''] None)))) = None \<and>
   fst (runOps [GetNextKey, MarkKeyAsRateLimited (Str ''k1''), GetNextKey]
          (newRequestKeyContext (\<lambda>i. 0) [''k1'', ''k2''] None)) = [Some (Str ''k2''), Some (Str ''k1'')]"
proof -
  let ?c0 = "newRequestKeyContext (\<lambda>i. 0) [''k1'', ''k2''] None"
  let ?ops = "[GetNextKey, MarkKeyAsRateLimited (Str ''k1''), GetNextKey]"
  have t: "allTried (snd (runOps ?ops ?c0))" by code_simp
  have r: "fst (runOps ?ops ?c0) = [Some (Str ''k2''), Some (Str ''k1'')]" by code_simp
  show ?thesis
    using getNextKey_contract[OF refl, of ?ops "\<lambda>i. 0" "[''k1'', ''k2'']" None] t r by simp
qed

text \<open>
  C10. The key list may hold duplicates. \<open>getNextKey\<close> is a total function: its loop
  runs at most once per position of the list (the termination proof of
  \<open>getNextKey_loop\<close>). Over any sequence of calls on a fresh context the keys served
  are pairwise different and are keys of the list, so there are at most as many as the
  list has distinct values; and once every value of the list has been tried, every
  later call returns \<open>null\<close>, whatever the length of the list.
\<close>

theorem getNextKey_duplicates:
  assumes "runOps ops (newRequestKeyContext rnd keys hint) = (rs, c)"
  shows "distinct (served rs) \<and>
         fset_of_list (served rs) |\<subseteq>| fset_of_list (map Str keys) \<and>
         length (served rs) \<le> card (set keys) \<and>
         (allTried c \<longrightarrow> fst (getNextKey c) = None \<and> served (fst (runOps ops' c)) = [])"
proof -
  let ?c0 = "newRequestKeyContext rnd keys hint"
  have inv0: "ctxInv ?c0" by (rule newRequestKeyContext_inv)
  have inv: "ctxInv c" using runOps_inv[OF inv0, of ops] assms by simp
  have keys: "RequestKeyContext.apiKeys c = smartShuffle rnd keys hint"
    using runOps_keys[of ops ?c0] assms by (simp add: newRequestKeyContext_def)
  have sv: "distinct (served rs)" "triedKeys c = fset_of_list (served rs)"
    using runOps_served[OF assms] by (simp_all add: newRequestKeyContext_def)
  have "triedKeys c |\<subseteq>| fset_of_list (map Str (smartShuffle rnd keys hint))"
    using inv keys by (simp add: ctxInv_def)
  then have sub: "fset_of_list (served rs) |\<subseteq>| fset_of_list (map Str keys)"
    using sv(2) by (auto simp: fset_of_list.rep_eq set_smartShuffle)
  have "length (served rs) = card (set (served rs))"
    using sv(1) by (simp add: distinct_card)
  also have "\<dots> \<le> card (Str ` set keys)"
    using sub by (intro card_mono) (auto simp: fset_of_list.rep_eq)
  also have "\<dots> = card (set keys)"
    by (rule card_image) (simp add: inj_on_def)
  finally have len: "length (served rs) \<le> card (set keys)" .
  have stay: "allTried c \<longrightarrow> fst (getNextKey c) = None \<and> served (fst (runOps ops' c)) = []"
    using getNextKey_None_iff[OF inv] runOps_allTried[OF inv] by simp
  show ?thesis using sv(1) sub len stay by simp
qed

theorem getNextKey_duplicates_witness:
  "served (fst (runOps [GetNextKey, GetNextKey, GetNextKey]
       (snd (runOps [GetNextKey, GetNextKey, GetNextKey]
          (newRequestKeyContext (\<lambda>i. 0) [''k1'', ''k1'', ''k2''] None))))) = [] \<and>
   length (served (fst (runOps [GetNextKey, GetNextKey, GetNextKey]
          (newRequestKeyContext (\<lambda>i. 0) [''k1'', ''k1'', ''k2''] None)))) \<le> 2"
proof -
  let ?c0 = "newRequestKeyContext (\<lambda>i. 0) [''k1'', ''k1'', ''k2''] None"
  let ?ops = "[GetNextKey, GetNextKey, GetNextKey]"
  have t: "allTried (snd (runOps ?ops ?c0))" by code_simp
  have c: "card (set [''k1'', ''k1'', ''k2'']) = 2" by simp
  show ?thesis
    using getNextKey_duplicates[of ?ops "\<lambda>i. 0" "[''k1'', ''k1'', ''k2'']" None
        "fst (runOps ?ops ?c0)" "snd (runOps ?ops ?c0)" ?ops] t c
    by simp
qed


section \<open>Upstream clients (openaiClient.js, geminiClient.js)\<close>

text \<open>
  An upstream response as \<open>sendRequest\<close> resolves it. A rejected promise, and an
  exception thrown while the request is built, is an \<open>Error\<close> with its message.
\<close>

record response =
  statusCode :: int
  headers :: "(string \<times> string) list"
  data :: string

datatype jsError = Error string

datatype attempt = Resolved response | Rejected jsError

text \<open>
  The network is a parameter: \<open>upstream n key\<close> is what the \<open>n\<close>-th call of
  \<open>sendRequest\<close> within this request (counted from 0) comes to when it carries \<open>key\<close>.
\<close>

type_synonym upstream = "nat \<Rightarrow> jsval \<Rightarrow> attempt"

datatype flavor = OpenAI | Gemini

definition dq :: string where
  "dq = [CHR 0x22]"

text \<open>The bodies that \<open>JSON.stringify\<close> gives for the two synthetic rate-limit answers.\<close>

definition syntheticRateLimit :: "flavor \<Rightarrow> response" where
  "syntheticRateLimit fl =
     \<lparr> statusCode = 429,
       headers = [(''content-type'', ''application/json'')],
       data = (case fl of
           OpenAI \<Rightarrow>
             ''{'' @ dq @ ''error'' @ dq @ '':{'' @ dq @ ''message'' @ dq @ '':'' @ dq @
             ''All OpenAI API keys have been rate limited for this request'' @ dq @ '','' @
             dq @ ''type'' @ dq @ '':'' @ dq @ ''rate_limit_exceeded'' @ dq @ '','' @
             dq @ ''code'' @ dq @ '':'' @ dq @ ''rate_limit_exceeded'' @ dq @ ''}}''
         | Gemini \<Rightarrow>
             ''{'' @ dq @ ''error'' @ dq @ '':{'' @ dq @ ''code'' @ dq @ '':429,'' @
             dq @ ''message'' @ dq @ '':'' @ dq @
             ''All API keys have been rate limited for this request'' @ dq @ '','' @
             dq @ ''status'' @ dq @ '':'' @ dq @ ''RESOURCE_EXHAUSTED'' @ dq @ ''}}'') \<rparr>"

text \<open>
  The local variables of the rotation loop. \<open>attempts\<close> is a ghost variable: the calls of
  \<open>sendRequest\<close> made so far, each with its key and what it came to.
\<close>

record loopState =
  requestContext :: RequestKeyContext
  lastError :: "jsError option"
  lastResponse :: "response option"
  attempts :: "(jsval \<times> attempt) list"

text \<open>
  What a call of \<open>makeRequest\<close> on the rotation path leaves behind: the value returned
  (\<open>Inr\<close>) or the error thrown (\<open>Inl\<close>), and the key rotator afterwards. The context at
  the moment of return, the calls made and whether the \<open>while\<close> loop ran to its end
  (rather than returning from inside) are recorded for the statements about them.
\<close>

record requestResult =
  returned :: "jsError + response"
  keyRotator :: KeyRotator
  finalContext :: RequestKeyContext
  trace :: "(jsval \<times> attempt) list"
  exhausted :: bool

text \<open>The code after the loop: all keys have been tried.\<close>

definition finalize :: "flavor \<Rightarrow> KeyRotator \<Rightarrow> loopState \<Rightarrow> requestResult" where
  "finalize fl rot st =
     (let c = requestContext st;
          rot' = updateLastFailedKey (getLastFailedKey c) rot
      in \<lparr> returned =
             (if allTriedKeysRateLimited c
              then Inr (case lastResponse st of Some r \<Rightarrow> r | None \<Rightarrow> syntheticRateLimit fl)
              else (case lastError st of
                      Some e \<Rightarrow> Inl e
                    | None \<Rightarrow> Inl (Error ''All API keys exhausted without clear error''))),
           keyRotator = rot',
           finalContext = c,
           trace = attempts st,
           exhausted = True \<rparr>)"

text \<open>A fresh key shrinks what is left of the key list; the loop below ends on that.\<close>

lemma getNextKey_measure:
  assumes "getNextKey c = (Some k, c')"
  shows "length (RequestKeyContext.apiKeys c') - fcard (triedKeys c')
           < length (RequestKeyContext.apiKeys c) - fcard (triedKeys c)"
proof -
  have "fcard (triedKeys c') = Suc (fcard (triedKeys c))"
    using getNextKey_Some[OF assms] by (auto simp: fcard_finsert_disjoint)
  moreover have "fcard (triedKeys c) < length (RequestKeyContext.apiKeys c)"
    using getNextKey_Some[OF assms] by simp
  moreover have "RequestKeyContext.apiKeys c' = RequestKeyContext.apiKeys c"
    using getNextKey_frame[OF assms] by simp
  ultimately show ?thesis by simp
qed

text \<open>
  The loop \<open>while ((apiKey = requestContext.getNextKey()) !== null)\<close> with its
  \<open>try\<close>/\<open>catch\<close>, and the code after it. The two clients differ in their log tags and in
  the synthetic answer only.
\<close>

function rotationLoop ::
  "flavor \<Rightarrow> int set \<Rightarrow> upstream \<Rightarrow> KeyRotator \<Rightarrow> loopState \<Rightarrow> requestResult" where
  "rotationLoop fl rotationStatusCodes up rot st =
     (case getNextKey (requestContext st) of
        (None, c) \<Rightarrow> finalize fl rot (st\<lparr>requestContext := c\<rparr>)
      | (Some apiKey, c) \<Rightarrow>
          (case up (length (attempts st)) apiKey of
             Resolved resp \<Rightarrow>
               if statusCode resp \<in> rotationStatusCodes
               then rotationLoop fl rotationStatusCodes up rot
                      (st\<lparr> requestContext := markKeyAsRateLimited apiKey c,
                          lastResponse := Some resp,
                          attempts := attempts st @ [(apiKey, Resolved resp)] \<rparr>)
               else \<lparr> returned = Inr resp,
                      keyRotator = rot,
                      finalContext = c,
                      trace = attempts st @ [(apiKey, Resolved resp)],
                      exhausted = False \<rparr>
           | Rejected err \<Rightarrow>
               rotationLoop fl rotationStatusCodes up rot
                 (st\<lparr> requestContext := c,
                     lastError := Some err,
                     attempts := attempts st @ [(apiKey, Rejected err)] \<rparr>)))"
  by pat_completeness auto
termination
proof (relation "measure (\<lambda>(fl, codes, up, rot, st).
          length (RequestKeyContext.apiKeys (requestContext st)) - fcard (triedKeys (requestContext st)))")
  show "wf (measure (\<lambda>(fl, codes, up, rot, st).
          length (RequestKeyContext.apiKeys (requestContext st)) - fcard (triedKeys (requestContext st))))"
    by simp
next
  fix fl :: flavor and rotationStatusCodes :: "int set" and up :: upstream and rot st x1 c apiKey resp
  assume "(x1, c) = getNextKey (requestContext st)" "x1 = Some apiKey"
  then have "getNextKey (requestContext st) = (Some apiKey, c)" by simp
  from getNextKey_measure[OF this]
  show "((fl, rotationStatusCodes, up, rot,
           st\<lparr> requestContext := markKeyAsRateLimited apiKey c,
               lastResponse := Some resp,
               attempts := attempts st @ [(apiKey, Resolved resp)] \<rparr>),
          (fl, rotationStatusCodes, up, rot, st))
        \<in> measure (\<lambda>(fl, codes, up, rot, st).
          length (RequestKeyContext.apiKeys (requestContext st)) - fcard (triedKeys (requestContext st)))"
    by simp
next
  fix fl :: flavor and rotationStatusCodes :: "int set" and up :: upstream and rot st x1 c apiKey err
  assume "(x1, c) = getNextKey (requestContext st)" "x1 = Some apiKey"
  then have "getNextKey (requestContext st) = (Some apiKey, c)" by simp
  from getNextKey_measure[OF this]
  show "((fl, rotationStatusCodes, up, rot,
           st\<lparr> requestContext := c,
               lastError := Some err,
               attempts := attempts st @ [(apiKey, Rejected err)] \<rparr>),
          (fl, rotationStatusCodes, up, rot, st))
        \<in> measure (\<lambda>(fl, codes, up, rot, st).
          length (RequestKeyContext.apiKeys (requestContext st)) - fcard (triedKeys (requestContext st)))"
    by simp
qed

declare rotationLoop.simps [simp del]

text \<open>
  The rotation path of \<open>makeRequest\<close>: a fresh context, the rotation codes
  (\<open>customStatusCodes || new Set([429])\<close>; a \<open>Set\<close> object is truthy even when empty),
  then the loop.
\<close>

definition rotationCodes :: "int set option \<Rightarrow> int set" where
  "rotationCodes customStatusCodes =
     (case customStatusCodes of Some codes \<Rightarrow> codes | None \<Rightarrow> {429})"

definition rotationPath ::
  "flavor \<Rightarrow> (nat \<Rightarrow> nat) \<Rightarrow> upstream \<Rightarrow> KeyRotator \<Rightarrow> int set option \<Rightarrow> requestResult" where
  "rotationPath fl rnd up rot customStatusCodes =
     rotationLoop fl (rotationCodes customStatusCodes) up rot
       \<lparr> requestContext = createRequestContext rnd rot,
         lastError = None,
         lastResponse = None,
         attempts = [] \<rparr>"

definition OpenAIClient_makeRequest ::
  "(nat \<Rightarrow> nat) \<Rightarrow> upstream \<Rightarrow> KeyRotator \<Rightarrow> int set option \<Rightarrow> requestResult" where
  "OpenAIClient_makeRequest rnd up rot customStatusCodes =
     rotationPath OpenAI rnd up rot customStatusCodes"

text \<open>
  The Gemini client first looks for a key of the caller's in the headers it is given;
  with one (a non-empty string) it makes a single call with that key and no rotation.
\<close>

datatype geminiResult = Direct "jsError + response" | Rotated requestResult

definition GeminiClient_makeRequest ::
  "(nat \<Rightarrow> nat) \<Rightarrow> upstream \<Rightarrow> KeyRotator \<Rightarrow> (string \<times> string) list \<Rightarrow> int set option
     \<Rightarrow> geminiResult" where
  "GeminiClient_makeRequest rnd up rot hdrs customStatusCodes =
     (case map_of hdrs ''x-goog-api-key'' of
        Some providedApiKey \<Rightarrow>
          if providedApiKey \<noteq> []
          then (case up 0 (Str providedApiKey) of
                  Resolved resp \<Rightarrow> Direct (Inr resp)
                | Rejected err \<Rightarrow> Direct (Inl err))
          else Rotated (rotationPath Gemini rnd up rot customStatusCodes)
      | None \<Rightarrow> Rotated (rotationPath Gemini rnd up rot customStatusCodes))"

text \<open>The rotation-triggering response recorded last among the calls made, if any.\<close>

fun lastRotationResponse :: "int set \<Rightarrow> (jsval \<times> attempt) list \<Rightarrow> response option" where
  "lastRotationResponse codes [] = None"
| "lastRotationResponse codes ((k, a) # tr) =
     (case lastRotationResponse codes tr of
        Some r \<Rightarrow> Some r
      | None \<Rightarrow>
          (case a of
             Resolved r \<Rightarrow> if statusCode r \<in> codes then Some r else None
           | Rejected e \<Rightarrow> None))"


subsection \<open>The rotation loop\<close>

lemma rl_exhaust:
  "getNextKey (requestContext st) = (None, c) \<Longrightarrow>
   rotationLoop fl codes up rot st = finalize fl rot (st\<lparr>requestContext := c\<rparr>)"
  by (subst rotationLoop.simps) simp

lemma rl_success:
  "getNextKey (requestContext st) = (Some k, c) \<Longrightarrow>
   up (length (attempts st)) k = Resolved r \<Longrightarrow> statusCode r \<notin> codes \<Longrightarrow>
   rotationLoop fl codes up rot st =
     \<lparr> returned = Inr r, keyRotator = rot, finalContext = c,
       trace = attempts st @ [(k, Resolved r)], exhausted = False \<rparr>"
  by (subst rotationLoop.simps) simp

lemma rl_rotate:
  "getNextKey (requestContext st) = (Some k, c) \<Longrightarrow>
   up (length (attempts st)) k = Resolved r \<Longrightarrow> statusCode r \<in> codes \<Longrightarrow>
   rotationLoop fl codes up rot st =
     rotationLoop fl codes up rot
       (st\<lparr> requestContext := markKeyAsRateLimited k c,
           lastResponse := Some r,
           attempts := attempts st @ [(k, Resolved r)] \<rparr>)"
  by (subst rotationLoop.simps) simp

lemma rl_error:
  "getNextKey (requestContext st) = (Some k, c) \<Longrightarrow>
   up (length (attempts st)) k = Rejected e \<Longrightarrow>
   rotationLoop fl codes up rot st =
     rotationLoop fl codes up rot
       (st\<lparr> requestContext := c,
           lastError := Some e,
           attempts := attempts st @ [(k, Rejected e)] \<rparr>)"
  by (subst rotationLoop.simps) simp

lemma rl_cases:
  obtains
    (exhaust) c where "getNextKey (requestContext st) = (None, c)"
  | (success) k c r where "getNextKey (requestContext st) = (Some k, c)"
      "up (length (attempts st)) k = Resolved r" "statusCode r \<notin> codes"
  | (rotate) k c r where "getNextKey (requestContext st) = (Some k, c)"
      "up (length (attempts st)) k = Resolved r" "statusCode r \<in> codes"
  | (error) k c e where "getNextKey (requestContext st) = (Some k, c)"
      "up (length (attempts st)) k = Rejected e"
proof (cases "getNextKey (requestContext st)")
  case (Pair x c)
  show ?thesis
  proof (cases x)
    case None
    then show ?thesis using Pair exhaust by simp
  next
    case (Some k)
    show ?thesis
    proof (cases "up (length (attempts st)) k")
      case (Resolved r)
      then show ?thesis using Pair Some success rotate by (cases "statusCode r \<in> codes") auto
    next
      case (Rejected e)
      then show ?thesis using Pair Some error by auto
    qed
  qed
qed

lemma rl_returned:
  "returned (rotationLoop fl codes up rot st) = Inr resp \<Longrightarrow>
   statusCode resp \<notin> codes \<or> allTriedKeysRateLimited (finalContext (rotationLoop fl codes up rot st))"
proof (induction fl codes up rot st rule: rotationLoop.induct)
  case (1 fl codes up rot st)
  show ?case
  proof (cases rule: rl_cases[where st=st and up=up and codes=codes])
    case (exhaust c)
    show ?thesis
      using "1.prems" rl_exhaust[OF exhaust, of fl codes up rot]
      by (auto simp: finalize_def Let_def split: if_splits option.splits)
  next
    case (success k c r)
    show ?thesis
      using "1.prems" rl_success[where up=up and fl=fl and rot=rot, OF success] success(3) by auto
  next
    case (rotate k c r)
    show ?thesis
      using "1.prems" "1.IH"(1)[OF rotate(1)[symmetric] refl rotate(2) rotate(3)]
      by (simp add: rl_rotate[where up=up and fl=fl and rot=rot, OF rotate])
  next
    case (error k c e)
    show ?thesis
      using "1.prems" "1.IH"(2)[OF error(1)[symmetric] refl error(2)]
      by (simp add: rl_error[where up=up and fl=fl and rot=rot and codes=codes, OF error])
  qed
qed

lemma lastRotationResponse_snoc:
  "lastRotationResponse codes (tr @ [(k, a)]) =
     (case a of
        Resolved r \<Rightarrow> if statusCode r \<in> codes then Some r else lastRotationResponse codes tr
      | Rejected e \<Rightarrow> lastRotationResponse codes tr)"
  by (induction tr) (auto split: option.splits attempt.splits)

lemma rl_exhausted:
  "exhausted (rotationLoop fl codes up rot st) \<Longrightarrow>
   lastResponse st = lastRotationResponse codes (attempts st) \<Longrightarrow>
   allTriedKeysRateLimited (finalContext (rotationLoop fl codes up rot st)) \<Longrightarrow>
   returned (rotationLoop fl codes up rot st) =
     Inr (case lastRotationResponse codes (trace (rotationLoop fl codes up rot st)) of
            Some r \<Rightarrow> r | None \<Rightarrow> syntheticRateLimit fl)"
proof (induction fl codes up rot st rule: rotationLoop.induct)
  case (1 fl codes up rot st)
  show ?case
  proof (cases rule: rl_cases[where st=st and up=up and codes=codes])
    case (exhaust c)
    show ?thesis
      using "1.prems" rl_exhaust[OF exhaust, of fl codes up rot]
      by (auto simp: finalize_def Let_def split: if_splits option.splits)
  next
    case (success k c r)
    show ?thesis
      using "1.prems" rl_success[where up=up and fl=fl and rot=rot, OF success] by auto
  next
    case (rotate k c r)
    show ?thesis
      using "1.prems" "1.IH"(1)[OF rotate(1)[symmetric] refl rotate(2) rotate(3)] rotate(3)
      by (simp add: rl_rotate[where up=up and fl=fl and rot=rot, OF rotate] lastRotationResponse_snoc)
  next
    case (error k c e)
    show ?thesis
      using "1.prems" "1.IH"(2)[OF error(1)[symmetric] refl error(2)]
      by (simp add: rl_error[where up=up and fl=fl and rot=rot and codes=codes, OF error] lastRotationResponse_snoc)
  qed
qed

lemma rl_rotator:
  "keyRotator (rotationLoop fl codes up rot st) =
     (if exhausted (rotationLoop fl codes up rot st)
      then updateLastFailedKey (getLastFailedKey (finalContext (rotationLoop fl codes up rot st))) rot
      else rot)"
proof (induction fl codes up rot st rule: rotationLoop.induct)
  case (1 fl codes up rot st)
  show ?case
  proof (cases rule: rl_cases[where st=st and up=up and codes=codes])
    case (exhaust c)
    show ?thesis
      using rl_exhaust[OF exhaust, of fl codes up rot]
      by (auto simp: finalize_def Let_def split: if_splits option.splits)
  next
    case (success k c r)
    show ?thesis
      using rl_success[where up=up and fl=fl and rot=rot, OF success] by auto
  next
    case (rotate k c r)
    show ?thesis
      using "1.IH"(1)[OF rotate(1)[symmetric] refl rotate(2) rotate(3)]
      by (simp add: rl_rotate[where up=up and fl=fl and rot=rot, OF rotate])
  next
    case (error k c e)
    show ?thesis
      using "1.IH"(2)[OF error(1)[symmetric] refl error(2)]
      by (simp add: rl_error[where up=up and fl=fl and rot=rot and codes=codes, OF error])
  qed
qed


lemma two_list:
  assumes "mset xs = mset [k1, k2]" "k1 \<noteq> k2"
  obtains a b where "xs = [a, b]" "a \<noteq> b" "{a, b} = {k1, k2}"
proof -
  have "length xs = 2" using assms(1) mset_eq_length by fastforce
  then obtain a b where xs: "xs = [a, b]"
    by (metis (no_types, opaque_lifting) length_0_conv length_Suc_conv numeral_2_eq_2)
  have "set xs = {k1, k2}" using assms(1) mset_eq_setD by fastforce
  moreover have "distinct xs" using assms by (metis distinct.simps(2) distinct_singleton empty_iff insert_iff list.simps(15) mset_eq_imp_distinct_iff set_empty2)
  ultimately show ?thesis using that xs by auto
qed

lemma two_keys_both_limited:
  assumes keys: "KeyRotator.apiKeys rot = [k1, k2]" "k1 \<noteq> k2"
    and codes: "429 \<in> codes"
    and up: "\<And>n k. \<exists>r. up n k = Resolved r \<and> statusCode r = 429"
    and res_def: "res = rotationLoop fl codes up rot
       \<lparr> requestContext = createRequestContext rnd rot, lastError = None,
         lastResponse = None, attempts = [] \<rparr>"
  shows "\<exists>a b r1 r2. {a, b} = {k1, k2} \<and>
           trace res = [(Str a, Resolved r1), (Str b, Resolved r2)] \<and>
           up 0 (Str a) = Resolved r1 \<and> up 1 (Str b) = Resolved r2 \<and>
           returned res = Inr r2 \<and>
           lastFailedKey (keyRotator res) = Some (Str b) \<and>
           exhausted res \<and> allTriedKeysRateLimited (finalContext res)"
proof -
  obtain a b where xs: "smartShuffle rnd [k1, k2] (lastFailedKey rot) = [a, b]"
      and ab: "a \<noteq> b" "{a, b} = {k1, k2}"
    using two_list[OF mset_smartShuffle keys(2)] by blast
  obtain r1 where r1: "up 0 (Str a) = Resolved r1" "statusCode r1 = 429" using up by blast
  obtain r2 where r2: "up 1 (Str b) = Resolved r2" "statusCode r2 = 429" using up by blast
  let ?c0 = "\<lparr> RequestKeyContext.apiKeys = [a, b], currentIndex = Some 0, triedKeys = {||},
       rateLimitedKeys = {||}, lastFailedKeyForThisRequest = None \<rparr>"
  let ?c0' = "?c0\<lparr>triedKeys := {|Str a|}\<rparr>"
  let ?c1 = "\<lparr> RequestKeyContext.apiKeys = [a, b], currentIndex = Some 1, triedKeys = {|Str a|},
       rateLimitedKeys = {|Str a|}, lastFailedKeyForThisRequest = Some (Str a) \<rparr>"
  let ?c1' = "?c1\<lparr>triedKeys := {|Str b, Str a|}\<rparr>"
  let ?c2 = "\<lparr> RequestKeyContext.apiKeys = [a, b], currentIndex = Some 0, triedKeys = {|Str b, Str a|},
       rateLimitedKeys = {|Str b, Str a|}, lastFailedKeyForThisRequest = Some (Str b) \<rparr>"
  let ?st0 = "\<lparr> requestContext = ?c0, lastError = None, lastResponse = None, attempts = [] \<rparr>"
  let ?st1 = "\<lparr> requestContext = ?c1, lastError = None, lastResponse = Some r1,
       attempts = [(Str a, Resolved r1)] \<rparr>"
  let ?st2 = "\<lparr> requestContext = ?c2, lastError = None, lastResponse = Some r2,
       attempts = [(Str a, Resolved r1), (Str b, Resolved r2)] \<rparr>"
  have c0: "createRequestContext rnd rot = ?c0"
    using xs keys by (simp add: createRequestContext_def newRequestKeyContext_def)
  have g0: "getNextKey ?c0 = (Some (Str a), ?c0')"
    by (simp add: getNextKey_def loop_found keyAt_def fcard_fempty)
  have m0: "markKeyAsRateLimited (Str a) ?c0' = ?c1"
    by (simp add: markKeyAsRateLimited_def advance_def)
  have s0: "rotationLoop fl codes up rot ?st0 = rotationLoop fl codes up rot ?st1"
    using rl_rotate[where up=up and st="?st0" and fl=fl and rot=rot and codes=codes, of "Str a" ?c0' r1]
      g0 r1 codes m0 by simp
  have g1: "getNextKey ?c1 = (Some (Str b), ?c1')"
    using ab(1) by (simp add: getNextKey_def loop_found keyAt_def fcard_finsert_if fcard_fempty)
  have m1: "markKeyAsRateLimited (Str b) ?c1' = ?c2"
    by (simp add: markKeyAsRateLimited_def advance_def)
  have s1: "rotationLoop fl codes up rot ?st1 = rotationLoop fl codes up rot ?st2"
    using rl_rotate[where up=up and st="?st1" and fl=fl and rot=rot and codes=codes, of "Str b" ?c1' r2]
      g1 r2 codes m1 by simp
  have g2: "getNextKey ?c2 = (None, ?c2)"
    using ab(1) by (simp add: getNextKey_def fcard_finsert_if fcard_fempty)
  have s2: "rotationLoop fl codes up rot ?st2 = finalize fl rot ?st2"
    using rl_exhaust[where st="?st2" and fl=fl and rot=rot and codes=codes and up=up, OF _] g2 by simp
  have res: "res = finalize fl rot ?st2"
    unfolding res_def c0 using s0 s1 s2 by simp
  have at: "allTriedKeysRateLimited ?c2"
    using ab(1) by (simp add: allTriedKeysRateLimited_def fcard_finsert_if fcard_fempty)
  show ?thesis
    apply (rule exI[of _ a], rule exI[of _ b], rule exI[of _ r1], rule exI[of _ r2])
    using ab(2) r1 r2 at
    by (simp add: res finalize_def Let_def updateLastFailedKey_def getLastFailedKey_def)
qed


lemma rotation_path:
  assumes "(fl = OpenAI \<and> res = OpenAIClient_makeRequest rnd up rot custom) \<or>
           (fl = Gemini \<and> GeminiClient_makeRequest rnd up rot hdrs custom = Rotated res)"
  shows "res = rotationLoop fl (rotationCodes custom) up rot
           \<lparr> requestContext = createRequestContext rnd rot, lastError = None,
             lastResponse = None, attempts = [] \<rparr>"
  using assms
  by (auto simp: OpenAIClient_makeRequest_def GeminiClient_makeRequest_def rotationPath_def
      split: option.splits if_splits attempt.splits)

text \<open>
  C3. A call of \<open>makeRequest\<close> on the rotation path, of either client, that returns a
  response: the status of the response is not a rotation code, or
  \<open>allTriedKeysRateLimited()\<close> holds of the request context at the moment of return.
\<close>

theorem makeRequest_returned_response:
  assumes "(fl = OpenAI \<and> res = OpenAIClient_makeRequest rnd up rot custom) \<or>
           (fl = Gemini \<and> GeminiClient_makeRequest rnd up rot hdrs custom = Rotated res)"
    and "returned res = Inr resp"
  shows "statusCode resp \<notin> rotationCodes custom \<or> allTriedKeysRateLimited (finalContext res)"
  using rl_returned assms(2) unfolding rotation_path[OF assms(1)] by blast

theorem makeRequest_returned_response_witness:
  "allTriedKeysRateLimited (finalContext (OpenAIClient_makeRequest (\<lambda>i. 0)
      (\<lambda>n k. Resolved \<lparr>statusCode = 429, headers = [], data = ''slow down''\<rparr>)
      \<lparr>KeyRotator.apiKeys = [''k1''], lastFailedKey = None\<rparr> None))"
proof -
  let ?r = "\<lparr>statusCode = 429, headers = [], data = ''slow down''\<rparr>"
  let ?res = "OpenAIClient_makeRequest (\<lambda>i. 0) (\<lambda>n k. Resolved ?r)
      \<lparr>KeyRotator.apiKeys = [''k1''], lastFailedKey = None\<rparr> None"
  have "returned ?res = Inr ?r" by code_simp
  from makeRequest_returned_response[of OpenAI ?res, OF disjI1, OF conjI, OF refl refl this]
  show ?thesis by (simp add: rotationCodes_def)
qed

lemma rl_recorded:
  "exhausted (rotationLoop fl codes up rot st) \<Longrightarrow>
   lastResponse st = lastRotationResponse codes (attempts st) \<Longrightarrow>
   rateLimitedKeys (requestContext st) \<noteq> {||} \<longrightarrow> lastResponse st \<noteq> None \<Longrightarrow>
   allTriedKeysRateLimited (finalContext (rotationLoop fl codes up rot st)) \<Longrightarrow>
   \<exists>r. lastRotationResponse codes (trace (rotationLoop fl codes up rot st)) = Some r \<and>
       returned (rotationLoop fl codes up rot st) = Inr r"
proof (induction fl codes up rot st rule: rotationLoop.induct)
  case (1 fl codes up rot st)
  show ?case
  proof (cases rule: rl_cases[where st=st and up=up and codes=codes])
    case (exhaust c)
    have res: "rotationLoop fl codes up rot st = finalize fl rot (st\<lparr>requestContext := c\<rparr>)"
      by (rule rl_exhaust[OF exhaust])
    have "allTriedKeysRateLimited c" using "1.prems"(4) by (simp add: res finalize_def Let_def)
    then have "fcard (rateLimitedKeys c) > 0" by (simp add: allTriedKeysRateLimited_def)
    then have "rateLimitedKeys c \<noteq> {||}" by (auto simp: fcard_fempty)
    then have "rateLimitedKeys (requestContext st) \<noteq> {||}"
      using getNextKey_frame[OF exhaust] by simp
    then obtain r where r: "lastResponse st = Some r" using "1.prems"(3) by auto
    have l: "lastRotationResponse codes (attempts st) = Some r" using "1.prems"(2) r by simp
    show ?thesis
      using "1.prems"(4) r l by (simp add: res finalize_def Let_def)
  next
    case (success k c r)
    show ?thesis
      using "1.prems" rl_success[where up=up and fl=fl and rot=rot, OF success] by auto
  next
    case (rotate k c r)
    show ?thesis
      using "1.prems" "1.IH"(1)[OF rotate(1)[symmetric] refl rotate(2) rotate(3)] rotate(3)
      by (simp add: rl_rotate[where up=up and fl=fl and rot=rot, OF rotate] lastRotationResponse_snoc)
  next
    case (error k c e)
    have "rateLimitedKeys c = rateLimitedKeys (requestContext st)"
      using getNextKey_frame[OF error(1)] by simp
    then show ?thesis
      using "1.prems" "1.IH"(2)[OF error(1)[symmetric] refl error(2)]
      by (simp add: rl_error[where up=up and fl=fl and rot=rot and codes=codes, OF error] lastRotationResponse_snoc)
  qed
qed

text \<open>
  C4 (as amended). A call of \<open>makeRequest\<close> on the rotation path, of either client.
  When the loop has run through all keys and \<open>allTriedKeysRateLimited()\<close> holds, a
  rotation-triggering response has been recorded and the call returns the one recorded
  last. The code after the loop, which the loop of the client's flavour enters when no
  key is left, returns \<open>lastResponse\<close> when there is one and else the synthetic response
  of that flavour: status 429, content type
  \<open>application/json\<close>, and the error body of OpenAI or of Gemini. In a pool of two
  different keys whose attempts are both answered with status 429 (a rotation code):
  two attempts are made, one per key; the response returned is the one of the second
  attempt; and the pool's \<open>lastFailedKey\<close> is the key of the second attempt.
\<close>

theorem exhaustion_returns_last_response:
  assumes "(fl = OpenAI \<and> res = OpenAIClient_makeRequest rnd up rot custom) \<or>
           (fl = Gemini \<and> GeminiClient_makeRequest rnd up rot hdrs custom = Rotated res)"
  shows "(exhausted res \<and> allTriedKeysRateLimited (finalContext res) \<longrightarrow>
            (\<exists>r. lastRotationResponse (rotationCodes custom) (trace res) = Some r \<and>
                 returned res = Inr r)) \<and>
         res = rotationLoop fl (rotationCodes custom) up rot
                 \<lparr> requestContext = createRequestContext rnd rot, lastError = None,
                   lastResponse = None, attempts = [] \<rparr> \<and>
         (getNextKey (requestContext st) = (None, c) \<longrightarrow>
            rotationLoop fl' codes up' rot' st = finalize fl' rot' (st\<lparr>requestContext := c\<rparr>)) \<and>
         (allTriedKeysRateLimited (requestContext st) \<longrightarrow>
            returned (finalize fl' rot' st) =
              Inr (case lastResponse st of Some r \<Rightarrow> r | None \<Rightarrow> syntheticRateLimit fl')) \<and>
         syntheticRateLimit OpenAI =
           \<lparr> statusCode = 429,
             headers = [(''content-type'', ''application/json'')],
             data = ''{'' @ dq @ ''error'' @ dq @ '':{'' @ dq @ ''message'' @ dq @ '':'' @ dq @
               ''All OpenAI API keys have been rate limited for this request'' @ dq @ '','' @
               dq @ ''type'' @ dq @ '':'' @ dq @ ''rate_limit_exceeded'' @ dq @ '','' @
               dq @ ''code'' @ dq @ '':'' @ dq @ ''rate_limit_exceeded'' @ dq @ ''}}'' \<rparr> \<and>
         syntheticRateLimit Gemini =
           \<lparr> statusCode = 429,
             headers = [(''content-type'', ''application/json'')],
             data = ''{'' @ dq @ ''error'' @ dq @ '':{'' @ dq @ ''code'' @ dq @ '':429,'' @
               dq @ ''message'' @ dq @ '':'' @ dq @
               ''All API keys have been rate limited for this request'' @ dq @ '','' @
               dq @ ''status'' @ dq @ '':'' @ dq @ ''RESOURCE_EXHAUSTED'' @ dq @ ''}}'' \<rparr> \<and>
         (KeyRotator.apiKeys rot = [k1, k2] \<and> k1 \<noteq> k2 \<and> 429 \<in> rotationCodes custom \<and>
          (\<forall>n k. \<exists>r. up n k = Resolved r \<and> statusCode r = 429) \<longrightarrow>
            (\<exists>a b r1 r2. {a, b} = {k1, k2} \<and>
               trace res = [(Str a, Resolved r1), (Str b, Resolved r2)] \<and>
               up 0 (Str a) = Resolved r1 \<and> up 1 (Str b) = Resolved r2 \<and>
               returned res = Inr r2 \<and>
               lastFailedKey (keyRotator res) = Some (Str b)))"
proof -
  note res = rotation_path[OF assms]
  have a: "exhausted res \<and> allTriedKeysRateLimited (finalContext res) \<longrightarrow>
            (\<exists>r. lastRotationResponse (rotationCodes custom) (trace res) = Some r \<and>
                 returned res = Inr r)"
    unfolding res
    by (auto intro!: rl_recorded simp: createRequestContext_def newRequestKeyContext_def)
  have b: "allTriedKeysRateLimited (requestContext st) \<longrightarrow>
            returned (finalize fl' rot' st) =
              Inr (case lastResponse st of Some r \<Rightarrow> r | None \<Rightarrow> syntheticRateLimit fl')"
    by (simp add: finalize_def Let_def)
  have s1: "syntheticRateLimit OpenAI =
           \<lparr> statusCode = 429,
             headers = [(''content-type'', ''application/json'')],
             data = ''{'' @ dq @ ''error'' @ dq @ '':{'' @ dq @ ''message'' @ dq @ '':'' @ dq @
               ''All OpenAI API keys have been rate limited for this request'' @ dq @ '','' @
               dq @ ''type'' @ dq @ '':'' @ dq @ ''rate_limit_exceeded'' @ dq @ '','' @
               dq @ ''code'' @ dq @ '':'' @ dq @ ''rate_limit_exceeded'' @ dq @ ''}}'' \<rparr>"
    by (simp add: syntheticRateLimit_def)
  have s2: "syntheticRateLimit Gemini =
           \<lparr> statusCode = 429,
             headers = [(''content-type'', ''application/json'')],
             data = ''{'' @ dq @ ''error'' @ dq @ '':{'' @ dq @ ''code'' @ dq @ '':429,'' @
               dq @ ''message'' @ dq @ '':'' @ dq @
               ''All API keys have been rate limited for this request'' @ dq @ '','' @
               dq @ ''status'' @ dq @ '':'' @ dq @ ''RESOURCE_EXHAUSTED'' @ dq @ ''}}'' \<rparr>"
    by (simp add: syntheticRateLimit_def)
  have c: "\<exists>a b r1 r2. {a, b} = {k1, k2} \<and>
               trace res = [(Str a, Resolved r1), (Str b, Resolved r2)] \<and>
               up 0 (Str a) = Resolved r1 \<and> up 1 (Str b) = Resolved r2 \<and>
               returned res = Inr r2 \<and>
               lastFailedKey (keyRotator res) = Some (Str b)"
    if h: "KeyRotator.apiKeys rot = [k1, k2]" "k1 \<noteq> k2" "429 \<in> rotationCodes custom"
      "\<forall>n k. \<exists>r. up n k = Resolved r \<and> statusCode r = 429"
    using two_keys_both_limited[OF h(1,2,3) _ res] h(4) by blast
  have d: "getNextKey (requestContext st) = (None, c) \<longrightarrow>
            rotationLoop fl' codes up' rot' st = finalize fl' rot' (st\<lparr>requestContext := c\<rparr>)"
    using rl_exhaust by blast
  show ?thesis
    apply (intro conjI)
          apply (rule a)
         apply (rule res)
        apply (rule d)
       apply (rule b)
      apply (rule s1)
     apply (rule s2)
    using c by blast
qed

theorem exhaustion_returns_last_response_witness:
  "returned (OpenAIClient_makeRequest (\<lambda>i. 0)
      (\<lambda>n k. Resolved \<lparr>statusCode = 429, headers = [], data = ''slow down''\<rparr>)
      \<lparr>KeyRotator.apiKeys = [''k1'', ''k2''], lastFailedKey = None\<rparr> None)
     = Inr \<lparr>statusCode = 429, headers = [], data = ''slow down''\<rparr>"
proof -
  let ?r = "\<lparr>statusCode = 429, headers = [], data = ''slow down''\<rparr>"
  let ?rot = "\<lparr>KeyRotator.apiKeys = [''k1'', ''k2''], lastFailedKey = None\<rparr>"
  let ?res = "OpenAIClient_makeRequest (\<lambda>i. 0) (\<lambda>n k. Resolved ?r) ?rot None"
  have e: "exhausted ?res" by code_simp
  have t: "allTriedKeysRateLimited (finalContext ?res)" by code_simp
  have l: "lastRotationResponse (rotationCodes None) (trace ?res) = Some ?r" by code_simp
  from exhaustion_returns_last_response[of OpenAI ?res, OF disjI1, OF conjI, OF refl refl,
      THEN conjunct1]
  show ?thesis using e t l by auto
qed

text \<open>
  C4 as stated fails on a pool that holds the same key twice: the second entry counts
  as tried already, so there is one attempt, and its response is the one returned.
\<close>

theorem exhaustion_returns_last_response_counterexample:
  "trace (OpenAIClient_makeRequest (\<lambda>i. 0)
      (\<lambda>n k. Resolved \<lparr>statusCode = 429, headers = [],
                         data = (if n = 0 then ''first'' else ''second'')\<rparr>)
      \<lparr>KeyRotator.apiKeys = [''k1'', ''k1''], lastFailedKey = None\<rparr> None)
     = [(Str ''k1'', Resolved \<lparr>statusCode = 429, headers = [], data = ''first''\<rparr>)] \<and>
   returned (OpenAIClient_makeRequest (\<lambda>i. 0)
      (\<lambda>n k. Resolved \<lparr>statusCode = 429, headers = [],
                         data = (if n = 0 then ''first'' else ''second'')\<rparr>)
      \<lparr>KeyRotator.apiKeys = [''k1'', ''k1''], lastFailedKey = None\<rparr> None)
     = Inr \<lparr>statusCode = 429, headers = [], data = ''first''\<rparr>"
  by code_simp

text \<open>
  C1 fails on the code. The \<open>return response\<close> inside the loop does not call
  \<open>updateLastFailedKey\<close>: a call that returns from inside the loop leaves the rotator
  as it was, and only a call whose loop runs through all keys stores the context's
  \<open>getLastFailedKey()\<close>. In the scenario of the spec (pool K1, K2, K3 with hint K2,
  status 200 at the first attempt) there is one attempt, with a key other than K2, and
  \<open>lastFailedKey\<close> is still K2 afterwards, not \<open>null\<close>.
\<close>

theorem success_keeps_lastFailedKey:
  assumes "(fl = OpenAI \<and> res = OpenAIClient_makeRequest rnd up rot custom) \<or>
           (fl = Gemini \<and> GeminiClient_makeRequest rnd up rot hdrs custom = Rotated res)"
  shows "keyRotator res =
           (if exhausted res
            then updateLastFailedKey (getLastFailedKey (finalContext res)) rot
            else rot)"
  unfolding rotation_path[OF assms] by (rule rl_rotator)

theorem success_keeps_lastFailedKey_witness:
  "lastFailedKey (keyRotator (OpenAIClient_makeRequest (\<lambda>i. 0)
      (\<lambda>n k. Resolved \<lparr>statusCode = 200, headers = [], data = ''ok''\<rparr>)
      \<lparr>KeyRotator.apiKeys = [''K1'', ''K2'', ''K3''], lastFailedKey = Some (Str ''K2'')\<rparr> None))
     = Some (Str ''K2'') \<and>
   trace (OpenAIClient_makeRequest (\<lambda>i. 0)
      (\<lambda>n k. Resolved \<lparr>statusCode = 200, headers = [], data = ''ok''\<rparr>)
      \<lparr>KeyRotator.apiKeys = [''K1'', ''K2'', ''K3''], lastFailedKey = Some (Str ''K2'')\<rparr> None)
     = [(Str ''K3'', Resolved \<lparr>statusCode = 200, headers = [], data = ''ok''\<rparr>)]"
proof -
  let ?r = "\<lparr>statusCode = 200, headers = [], data = ''ok''\<rparr>"
  let ?rot = "\<lparr>KeyRotator.apiKeys = [''K1'', ''K2'', ''K3''], lastFailedKey = Some (Str ''K2'')\<rparr>"
  let ?res = "OpenAIClient_makeRequest (\<lambda>i. 0) (\<lambda>n k. Resolved ?r) ?rot None"
  have e: "\<not> exhausted ?res" by code_simp
  have t: "trace ?res = [(Str ''K3'', Resolved ?r)]" by code_simp
  from success_keeps_lastFailedKey[of OpenAI ?res, OF disjI1, OF conjI, OF refl refl]
  show ?thesis using e t by simp
qed


section \<open>Proxy server (server.js)\<close>

subsection \<open>Strings\<close>

text \<open>
  Node decodes the value of a request header as Latin-1, so each of its characters is
  one byte and an Isabelle \<open>string\<close> holds it exactly. Among these characters
  \<open>String.prototype.trim\<close> and \<open>parseInt\<close> strip tab, line feed, vertical tab, form
  feed, carriage return, space and no-break space.
\<close>

definition isWhiteSpace :: "char \<Rightarrow> bool" where
  "isWhiteSpace c =
     (c \<in> set [CHR 0x09, CHR 0x0A, CHR 0x0B, CHR 0x0C, CHR 0x0D, CHR 0x20, CHR 0xA0])"

definition trim :: "string \<Rightarrow> string" where
  "trim s = rev (dropWhile isWhiteSpace (rev (dropWhile isWhiteSpace s)))"

text \<open>
  Under the \<open>i\<close> flag (without \<open>u\<close>) a regular expression compares characters after
  upper-casing them, and never lets a character outside ASCII match one inside. For the
  ASCII patterns below this is the comparison after \<open>upperAscii\<close>.
\<close>

definition upperAscii :: "char \<Rightarrow> char" where
  "upperAscii c =
     (case map_of (zip ''abcdefghijklmnopqrstuvwxyz'' ''ABCDEFGHIJKLMNOPQRSTUVWXYZ'') c of
        Some u \<Rightarrow> u
      | None \<Rightarrow> c)"

definition lowerAscii :: "char \<Rightarrow> char" where
  "lowerAscii c =
     (case map_of (zip ''ABCDEFGHIJKLMNOPQRSTUVWXYZ'' ''abcdefghijklmnopqrstuvwxyz'') c of
        Some l \<Rightarrow> l
      | None \<Rightarrow> c)"

text \<open>\<open>s.split(sep)\<close> for a separator of one character.\<close>

fun jsSplit :: "char \<Rightarrow> string \<Rightarrow> string list" where
  "jsSplit sep [] = [[]]"
| "jsSplit sep (c # cs) =
     (if c = sep then [] # jsSplit sep cs
      else (case jsSplit sep cs of
              p # ps \<Rightarrow> (c # p) # ps
            | [] \<Rightarrow> [[c]]))"

definition endsWith :: "string \<Rightarrow> string \<Rightarrow> bool" where
  "endsWith s suffix =
     (length suffix \<le> length s \<and> drop (length s - length suffix) s = suffix)"

text \<open>
  A JavaScript number is a double. The numbers met in this file are integers or
  infinite; \<open>NaN\<close> is \<open>None\<close> where it can arise. An integer below \<open>2^53\<close> in magnitude is a
  double. A larger one is rounded to 53 significant bits, to the neighbour with the even
  last bit in a tie, and to \<open>Infinity\<close> when the rounded value reaches \<open>2^1024\<close>.
\<close>

datatype number = Finite int | Infinity | NegInfinity

function bitLength :: "int \<Rightarrow> nat" where
  "bitLength n = (if n \<le> 0 then 0 else Suc (bitLength (n div 2)))"
  by pat_completeness auto
termination
  by (relation "measure nat") auto

declare bitLength.simps [simp del]

text \<open>The double nearest to an integer \<open>v \<ge> 0\<close>; \<open>None\<close> is \<open>Infinity\<close>.\<close>

definition roundDouble :: "int \<Rightarrow> int option" where
  "roundDouble v =
     (if v < 2 ^ 53 then Some v
      else (let e = bitLength v - 53;
                q = v div 2 ^ e;
                r = v mod 2 ^ e;
                q' = (if 2 * r > 2 ^ e \<or> (2 * r = 2 ^ e \<and> odd q) then q + 1 else q);
                m = q' * 2 ^ e
            in if m < 2 ^ 1024 then Some m else None))"

definition toNumber :: "int \<Rightarrow> number" where
  "toNumber v =
     (case roundDouble \<bar>v\<bar> of
        Some m \<Rightarrow> Finite (if v < 0 then - m else m)
      | None \<Rightarrow> if v < 0 then NegInfinity else Infinity)"

text \<open>\<open>a <= b\<close> and \<open>a + 1\<close> on these numbers.\<close>

fun numLe :: "number \<Rightarrow> number \<Rightarrow> bool" where
  "numLe (Finite a) (Finite b) = (a \<le> b)"
| "numLe NegInfinity b = True"
| "numLe a Infinity = True"
| "numLe Infinity b = False"
| "numLe a NegInfinity = False"

fun increment :: "number \<Rightarrow> number" where
  "increment (Finite n) = toNumber (n + 1)"
| "increment Infinity = Infinity"
| "increment NegInfinity = NegInfinity"

text \<open>
  \<open>parseInt(str)\<close> without a radix: leading white space, a sign, \<open>0x\<close> or \<open>0X\<close> for
  radix 16, then the longest run of digits of the radix; \<open>NaN\<close> (here \<open>None\<close>) when the
  run is empty. What follows the digits is ignored. The result is the double nearest to
  the integer that the digits denote.
\<close>

definition digitOf :: "nat \<Rightarrow> char \<Rightarrow> nat option" where
  "digitOf radix c =
     (case map_of
        [(CHR ''0'', 0), (CHR ''1'', 1), (CHR ''2'', 2), (CHR ''3'', 3), (CHR ''4'', 4),
         (CHR ''5'', 5), (CHR ''6'', 6), (CHR ''7'', 7), (CHR ''8'', 8), (CHR ''9'', 9),
         (CHR ''a'', 10), (CHR ''b'', 11), (CHR ''c'', 12), (CHR ''d'', 13), (CHR ''e'', 14),
         (CHR ''f'', 15), (CHR ''A'', 10), (CHR ''B'', 11), (CHR ''C'', 12), (CHR ''D'', 13),
         (CHR ''E'', 14), (CHR ''F'', 15)] c of
        Some d \<Rightarrow> if d < radix then Some d else None
      | None \<Rightarrow> None)"

definition digitsValue :: "nat \<Rightarrow> string \<Rightarrow> int" where
  "digitsValue radix ds =
     foldl (\<lambda>acc c. acc * int radix + (case digitOf radix c of Some d \<Rightarrow> int d | None \<Rightarrow> 0))
       0 ds"

definition parseInt :: "string \<Rightarrow> number option" where
  "parseInt str =
     (let s = dropWhile isWhiteSpace str;
          negative = (s \<noteq> [] \<and> hd s = CHR ''-'');
          s = (if s \<noteq> [] \<and> (hd s = CHR ''+'' \<or> hd s = CHR ''-'') then tl s else s);
          hex = (length s \<ge> 2 \<and> hd s = CHR ''0'' \<and> (s ! 1 = CHR ''x'' \<or> s ! 1 = CHR ''X''));
          radix = (if hex then 16 else 10);
          s = (if hex then drop 2 s else s);
          z = takeWhile (\<lambda>c. digitOf radix c \<noteq> None) s
      in if z = [] then None
         else Some (toNumber ((if negative then - 1 else 1) * digitsValue radix z)))"

subsection \<open>Directives in the auth header\<close>

definition statusCodesTag :: string where
  "statusCodesTag = ''[STATUS_CODES:''"

definition accessKeyTag :: string where
  "accessKeyTag = ''[ACCESS_KEY:''"

text \<open>
  The regular expressions \<open>/\[STATUS_CODES:([^\]]+)\]/i\<close> and \<open>/\[ACCESS_KEY:([^\]]+)\]/i\<close>
  tried at the start of \<open>s\<close>: the tag in any case, then one or more characters other
  than \<open>]\<close>, then \<open>]\<close>. The result is the captured group and the text after the match.
  The group is greedy and cannot hold a \<open>]\<close>, so it is the whole run before the next
  \<open>]\<close>, and there is no match when the run is empty or the string ends first.
\<close>

definition matchAt :: "string \<Rightarrow> string \<Rightarrow> (string \<times> string) option" where
  "matchAt tag s =
     (if map upperAscii (take (length tag) s) = tag
      then (let after = drop (length tag) s;
                body = takeWhile (\<lambda>c. c \<noteq> CHR '']'') after;
                rest = dropWhile (\<lambda>c. c \<noteq> CHR '']'') after
            in if body \<noteq> [] \<and> rest \<noteq> [] then Some (body, tl rest) else None)
      else None)"

text \<open>\<open>s.match(re)\<close>: the group of the leftmost match.\<close>

fun regexMatch :: "string \<Rightarrow> string \<Rightarrow> string option" where
  "regexMatch tag [] = None"
| "regexMatch tag (c # cs) =
     (case matchAt tag (c # cs) of
        Some (body, rest) \<Rightarrow> Some body
      | None \<Rightarrow> regexMatch tag cs)"

lemma matchAt_shorter: "matchAt tag s = Some (body, rest) \<Longrightarrow> length rest < length s"
proof -
  assume m: "matchAt tag s = Some (body, rest)"
  let ?d = "dropWhile (\<lambda>c. c \<noteq> CHR '']'') (drop (length tag) s)"
  from m have d: "?d \<noteq> []" and r: "rest = tl ?d"
    by (auto simp: matchAt_def Let_def split: if_splits)
  have "length ?d \<le> length (drop (length tag) s)" by (rule length_dropWhile_le)
  then have "length ?d \<le> length s" by simp
  moreover have "length (tl ?d) < length ?d" using d by (cases ?d) auto
  ultimately show ?thesis using r by simp
qed

text \<open>
  \<open>s.replace(re, '')\<close> with the \<open>g\<close> flag: every match, found from left to right, each
  search starting where the match before it ended, is left out.
\<close>

function regexRemoveAll :: "string \<Rightarrow> string \<Rightarrow> string" where
  "regexRemoveAll tag [] = []"
| "regexRemoveAll tag (c # cs) =
     (case matchAt tag (c # cs) of
        Some (body, rest) \<Rightarrow> regexRemoveAll tag rest
      | None \<Rightarrow> c # regexRemoveAll tag cs)"
  by pat_completeness auto
termination
proof (relation "measure (\<lambda>(tag, s). length s)")
  show "wf (measure (\<lambda>(tag, s). length s))" by simp
next
  fix tag c cs x2 body rest
  assume "matchAt tag (c # cs) = Some x2" "(body, rest) = x2"
  then have "matchAt tag (c # cs) = Some (body, rest)" by simp
  from matchAt_shorter[OF this]
  show "((tag, rest), (tag, c # cs)) \<in> measure (\<lambda>(tag, s). length s)" by simp
next
  fix tag c cs
  show "((tag, cs), (tag, c # cs)) \<in> measure (\<lambda>(tag, s). length s)" by simp
qed

text \<open>
  \<open>codes.add(v)\<close> on the \<open>Set\<close> of codes. A \<open>Set\<close> of Node (V8) holds at most \<open>2^24\<close>
  entries: adding a value it does not hold to a full one throws a \<open>RangeError\<close>.
\<close>

definition maxSetSize :: int where
  "maxSetSize = 2 ^ 24"

definition setAdd :: "number \<Rightarrow> number fset \<Rightarrow> jsError + number fset" where
  "setAdd v codes =
     (if v |\<in>| codes then Inr codes
      else if int (fcard codes) < maxSetSize then Inr (finsert v codes)
      else Inl (Error ''Set maximum size exceeded''))"

text \<open>
  The loop \<open>for (let i = start; i <= end; i++) codes.add(i)\<close>. It need not come to
  an end: from \<open>2^53\<close> on \<open>i++\<close> can leave \<open>i\<close> as it is. Not returning is \<open>None\<close>; a
  returning run gives the codes (\<open>Inr\<close>) or throws (\<open>Inl\<close>).
\<close>

partial_function (option) addRange ::
  "number \<Rightarrow> number \<Rightarrow> number fset \<Rightarrow> (jsError + number fset) option" where
  "addRange i stop codes =
     (if numLe i stop
      then (case setAdd i codes of
              Inl e \<Rightarrow> Some (Inl e)
            | Inr codes' \<Rightarrow> addRange (increment i) stop codes')
      else Some (Inr codes))"

declare addRange.simps [code]

text \<open>What one term of the list does to the set of codes.\<close>

definition termCodes :: "string \<Rightarrow> number fset \<Rightarrow> (jsError + number fset) option" where
  "termCodes part codes =
     (if CHR ''-'' \<in> set part
      then (case map (\<lambda>n. parseInt (trim n)) (jsSplit CHR ''-'' part) of
              Some start # Some stop # _ \<Rightarrow> addRange start stop codes
            | _ \<Rightarrow> Some (Inr codes))
      else if endsWith part ''=+''
      then (case parseInt (trim (take (length part - 2) part)) of
              Some base \<Rightarrow> addRange base (Finite 599) codes
            | None \<Rightarrow> Some (Inr codes))
      else if endsWith part ''+''
      then (case parseInt (trim (take (length part - 1) part)) of
              Some base \<Rightarrow> addRange (increment base) (Finite 599) codes
            | None \<Rightarrow> Some (Inr codes))
      else (case parseInt (trim part) of
              Some code \<Rightarrow> Some (setAdd code codes)
            | None \<Rightarrow> Some (Inr codes)))"

text \<open>The loop \<open>for (const part of parts)\<close>.\<close>

fun addParts :: "string list \<Rightarrow> number fset \<Rightarrow> (jsError + number fset) option" where
  "addParts [] codes = Some (Inr codes)"
| "addParts (part # parts) codes =
     (case termCodes part codes of
        None \<Rightarrow> None
      | Some (Inl e) \<Rightarrow> Some (Inl e)
      | Some (Inr codes') \<Rightarrow> addParts parts codes')"

text \<open>
  \<open>parseStatusCodesFromAuth\<close>: \<open>None\<close> when the call does not return, else the exception
  thrown (\<open>Inl\<close>) or the value returned (\<open>Inr\<close>), which is \<open>null\<close> or the \<open>Set\<close> of codes.
\<close>

definition parseStatusCodesFromAuth ::
  "string option \<Rightarrow> (jsError + number fset option) option" where
  "parseStatusCodesFromAuth authHeader =
     (case authHeader of
        None \<Rightarrow> Some (Inr None)
      | Some h \<Rightarrow>
          (case regexMatch statusCodesTag h of
             None \<Rightarrow> Some (Inr None)
           | Some statusCodeStr \<Rightarrow>
               (case addParts (map trim (jsSplit CHR '','' statusCodeStr)) {||} of
                  None \<Rightarrow> None
                | Some (Inl e) \<Rightarrow> Some (Inl e)
                | Some (Inr codes) \<Rightarrow>
                    Some (Inr (if fcard codes > 0 then Some codes else None)))))"

text \<open>
  The clients ask \<open>rotationStatusCodes.has(response.statusCode)\<close> only, and a status
  code is an integer: of the \<open>Set\<close> they see its integers.
\<close>

definition statusCodeSet :: "number fset \<Rightarrow> int set" where
  "statusCodeSet codes = (\<Union>v\<in>fset codes. case v of Finite n \<Rightarrow> {n} | _ \<Rightarrow> {})"

definition parseAccessKeyFromAuth :: "string option \<Rightarrow> string option" where
  "parseAccessKeyFromAuth authHeader =
     (case authHeader of
        None \<Rightarrow> None
      | Some h \<Rightarrow>
          (case regexMatch accessKeyTag h of
             None \<Rightarrow> None
           | Some v \<Rightarrow> Some (trim v)))"

text \<open>
  \<open>cleanAuthHeader\<close>. A missing header and the empty string are falsy and returned as
  they are; \<open>null\<close> and \<open>undefined\<close> are both \<open>None\<close>.
\<close>

definition cleanAuthHeader :: "string option \<Rightarrow> string option" where
  "cleanAuthHeader authHeader =
     (case authHeader of
        None \<Rightarrow> None
      | Some h \<Rightarrow>
          if h = [] then Some h
          else (let cleaned = trim (regexRemoveAll accessKeyTag (regexRemoveAll statusCodesTag h))
                in if cleaned = ''Bearer'' \<or> cleaned = ''Bearer '' then None
                   else Some cleaned))"


text \<open>
  A header shaped as the interface documents it: stretches of plain text without \<open>[\<close>
  and directives, each a tag (in any case), a non-empty body without brackets and the
  closing \<open>]\<close>.
\<close>

datatype segment = Plain string | Directive string string

fun render :: "segment list \<Rightarrow> string" where
  "render [] = []"
| "render (Plain t # segs) = t @ render segs"
| "render (Directive tag body # segs) = tag @ body @ '']'' @ render segs"

fun plainText :: "segment list \<Rightarrow> string" where
  "plainText [] = []"
| "plainText (Plain t # segs) = t @ plainText segs"
| "plainText (Directive tag body # segs) = plainText segs"

fun wellFormed :: "segment \<Rightarrow> bool" where
  "wellFormed (Plain t) = (CHR ''['' \<notin> set t)"
| "wellFormed (Directive tag body) =
     ((map upperAscii tag = statusCodesTag \<or> map upperAscii tag = accessKeyTag) \<and>
      body \<noteq> [] \<and> CHR ''['' \<notin> set body \<and> CHR '']'' \<notin> set body)"

text \<open>The segments without the directives of one tag.\<close>

fun dropDirectives :: "string \<Rightarrow> segment list \<Rightarrow> segment list" where
  "dropDirectives tag [] = []"
| "dropDirectives tag (Plain t # segs) = Plain t # dropDirectives tag segs"
| "dropDirectives tag (Directive tg body # segs) =
     (if map upperAscii tg = tag then dropDirectives tag segs
      else Directive tg body # dropDirectives tag segs)"

text \<open>A term of the status code grammar that is an integer: decimal digits only.\<close>

definition isDigits :: "string \<Rightarrow> bool" where
  "isDigits a = (a \<noteq> [] \<and> list_all (\<lambda>c. c \<in> set ''0123456789'') a)"

definition decimal :: "string \<Rightarrow> int" where
  "decimal a = digitsValue 10 a"

text \<open>
  The grammar of the interface: the four forms of a term, how each is written, and the
  codes it stands for. A term is within bounds when its integers are below \<open>2^53\<close>.
\<close>

datatype codeTerm = Single string | Range string string | Above string | From string

fun written :: "codeTerm \<Rightarrow> string" where
  "written (Single a) = a"
| "written (Range a b) = a @ ''-'' @ b"
| "written (Above a) = a @ ''+''"
| "written (From a) = a @ ''=+''"

definition codeRange :: "int \<Rightarrow> int \<Rightarrow> number fset" where
  "codeRange a b = fset_of_list (map Finite [a..b])"

fun contribution :: "codeTerm \<Rightarrow> number fset" where
  "contribution (Single a) = {|Finite (decimal a)|}"
| "contribution (Range a b) = codeRange (decimal a) (decimal b)"
| "contribution (Above a) = codeRange (decimal a + 1) 599"
| "contribution (From a) = codeRange (decimal a) 599"

definition isInteger :: "string \<Rightarrow> bool" where
  "isInteger a = (isDigits a \<and> decimal a < 2 ^ 53)"




text \<open>The segments that are \<open>[STATUS_CODES:...]\<close> directives.\<close>

fun isStatusCodes :: "segment \<Rightarrow> bool" where
  "isStatusCodes (Plain t) = False"
| "isStatusCodes (Directive tag body) = (map upperAscii tag = statusCodesTag)"

subsection \<open>Dispatch of a proxied request\<close>

text \<open>
  The configuration is consulted through \<open>getProvider\<close> only: a map from provider
  names to provider records.
\<close>

record provider =
  apiType :: string
  keys :: "string list"
  baseUrl :: string
  accessKey :: "string option"

datatype client = OpenAIClient KeyRotator string | GeminiClient KeyRotator string

record ProxyServer =
  config :: "string \<rightharpoonup> provider"
  geminiClient :: "client option"
  openaiClient :: "client option"
  providerClients :: "string \<rightharpoonup> client"

text \<open>What \<open>parseRoute\<close> returns for a proxied request (the upstream path is left out).\<close>

record routeInfo =
  providerName :: string
  apiType :: string
  provider :: "provider option"
  legacy :: bool

text \<open>What the client of the proxy is sent: the upstream response, or \<open>sendError\<close>.\<close>

datatype answer = Proxied response | SentError int string

definition apos :: string where
  "apos = [CHR 0x27]"

definition validateAccessKey :: "ProxyServer \<Rightarrow> string \<Rightarrow> string option \<Rightarrow> bool" where
  "validateAccessKey srv name authHeader =
     (case config srv name of
        None \<Rightarrow> True
      | Some providerConfig \<Rightarrow>
          (case accessKey providerConfig of
             None \<Rightarrow> True
           | Some required \<Rightarrow>
               if required = [] then True
               else (case parseAccessKeyFromAuth authHeader of
                       None \<Rightarrow> False
                     | Some providedAccessKey \<Rightarrow>
                         if providedAccessKey = [] then False
                         else providedAccessKey = required)))"

text \<open>
  \<open>extractRelevantHeaders\<close>. For an API type that is neither \<open>gemini\<close> nor \<open>openai\<close>
  the list of names is \<open>undefined\<close>, and the first header met raises a \<open>TypeError\<close>.
\<close>

definition extractRelevantHeaders ::
  "(string \<times> string) list \<Rightarrow> string \<Rightarrow> jsError + (string \<times> string) list" where
  "extractRelevantHeaders hdrs apiType' =
     (if apiType' = ''gemini''
      then Inr (filter (\<lambda>(key, v). map lowerAscii key \<in>
                  set [''content-type'', ''accept'', ''user-agent'', ''x-goog-user-project'']) hdrs)
      else if apiType' = ''openai''
      then Inr (filter (\<lambda>(key, v). map lowerAscii key \<in>
                  set [''content-type'', ''accept'', ''user-agent'', ''openai-organization'',
                       ''openai-project'']) hdrs)
      else if hdrs = [] then Inr []
      else Inl (Error (''Cannot read properties of undefined (reading '' @ apos @ ''includes'' @ apos @ '')'')))"

text \<open>\<open>headers[name] = v\<close> on an object: the entry is replaced, or added at the end.\<close>

fun setHeader :: "string \<Rightarrow> string \<Rightarrow> (string \<times> string) list \<Rightarrow> (string \<times> string) list" where
  "setHeader name v [] = [(name, v)]"
| "setHeader name v ((k, w) # hdrs) =
     (if k = name then (name, v) # hdrs else (k, w) # setHeader name v hdrs)"

definition authHeaderName :: "string \<Rightarrow> string" where
  "authHeaderName apiType' = (if apiType' = ''gemini'' then ''x-goog-api-key'' else ''authorization'')"

text \<open>
  The headers handed to the upstream client: the relevant ones, and the cleaned auth
  header put back under its name when there is an auth header and the cleaned one is
  truthy.
\<close>

definition forwardedHeaders ::
  "(string \<times> string) list \<Rightarrow> string \<Rightarrow> jsError + (string \<times> string) list" where
  "forwardedHeaders reqHeaders apiType' =
     (let authHeader = map_of reqHeaders (authHeaderName apiType')
      in case extractRelevantHeaders reqHeaders apiType' of
           Inl e \<Rightarrow> Inl e
         | Inr hdrs \<Rightarrow>
             (case authHeader of
                None \<Rightarrow> Inr hdrs
              | Some a \<Rightarrow>
                  if a = [] then Inr hdrs
                  else (case cleanAuthHeader (Some a) of
                          None \<Rightarrow> Inr hdrs
                        | Some cleanedAuth \<Rightarrow>
                            if cleanedAuth = [] then Inr hdrs
                            else Inr (setHeader (authHeaderName apiType') cleanedAuth hdrs))))"

text \<open>
  \<open>getProviderClient\<close>: the legacy clients, the cache, or a new client for the provider
  record, which is cached. The number of keys of the record is not looked at.
\<close>

definition getProviderClient ::
  "ProxyServer \<Rightarrow> string \<Rightarrow> provider option \<Rightarrow> bool \<Rightarrow> client option \<times> ProxyServer" where
  "getProviderClient srv name prov isLegacy =
     (if isLegacy
      then (if name = ''gemini'' \<and> geminiClient srv \<noteq> None then (geminiClient srv, srv)
            else if name = ''openai'' \<and> openaiClient srv \<noteq> None then (openaiClient srv, srv)
            else (None, srv))
      else (case providerClients srv name of
              Some cl \<Rightarrow> (Some cl, srv)
            | None \<Rightarrow>
                (case prov of
                   None \<Rightarrow> (None, srv)
                 | Some p \<Rightarrow>
                     (let rot = \<lparr> KeyRotator.apiKeys = keys p, lastFailedKey = None \<rparr>
                      in if provider.apiType p = ''openai''
                         then (Some (OpenAIClient rot (baseUrl p)),
                               srv\<lparr>providerClients := (providerClients srv)(name \<mapsto> OpenAIClient rot (baseUrl p))\<rparr>)
                         else if provider.apiType p = ''gemini''
                         then (Some (GeminiClient rot (baseUrl p)),
                               srv\<lparr>providerClients := (providerClients srv)(name \<mapsto> GeminiClient rot (baseUrl p))\<rparr>)
                         else (None, srv)))))"

text \<open>
  \<open>client.makeRequest\<close>: what is returned or thrown, and the client with its rotator
  as the call leaves it.
\<close>

definition clientMakeRequest ::
  "(nat \<Rightarrow> nat) \<Rightarrow> upstream \<Rightarrow> client \<Rightarrow> (string \<times> string) list \<Rightarrow> int set option
     \<Rightarrow> (jsError + response) \<times> client" where
  "clientMakeRequest rnd up cl hdrs customStatusCodes =
     (case cl of
        OpenAIClient rot url \<Rightarrow>
          (let res = OpenAIClient_makeRequest rnd up rot customStatusCodes
           in (returned res, OpenAIClient (keyRotator res) url))
      | GeminiClient rot url \<Rightarrow>
          (case GeminiClient_makeRequest rnd up rot hdrs customStatusCodes of
             Direct r \<Rightarrow> (r, cl)
           | Rotated res \<Rightarrow> (returned res, GeminiClient (keyRotator res) url)))"

text \<open>The client object is shared: the server sees the rotator as the call left it.\<close>

definition storeClient :: "ProxyServer \<Rightarrow> string \<Rightarrow> bool \<Rightarrow> client \<Rightarrow> ProxyServer" where
  "storeClient srv name isLegacy cl =
     (if isLegacy
      then (if name = ''gemini'' \<and> geminiClient srv \<noteq> None then srv\<lparr>geminiClient := Some cl\<rparr>
            else srv\<lparr>openaiClient := Some cl\<rparr>)
      else srv\<lparr>providerClients := (providerClients srv)(name \<mapsto> cl)\<rparr>)"

text \<open>
  \<open>handleRequest\<close> from the point where the route is known: the status codes, the access
  check, the headers, the client, the call, and the \<open>catch\<close> that turns any exception into
  a 500. The status codes are parsed first, inside the \<open>try\<close>: an exception there is
  answered with 500 before anything else is looked at, and a parse that does not return
  leaves the request without answer (\<open>None\<close>).
\<close>

definition handleRoute ::
  "(nat \<Rightarrow> nat) \<Rightarrow> upstream \<Rightarrow> ProxyServer \<Rightarrow> routeInfo \<Rightarrow> (string \<times> string) list
     \<Rightarrow> (answer \<times> ProxyServer) option" where
  "handleRoute rnd up srv route reqHeaders =
     (let authHeader = map_of reqHeaders (authHeaderName (routeInfo.apiType route))
      in case parseStatusCodesFromAuth authHeader of
           None \<Rightarrow> None
         | Some (Inl e) \<Rightarrow> Some (SentError 500 ''Internal server error'', srv)
         | Some (Inr customStatusCodes) \<Rightarrow>
             Some
               (if \<not> validateAccessKey srv (providerName route) authHeader
                then (SentError 401
                        (''Invalid or missing ACCESS_KEY for provider '' @ apos @ providerName route @ apos),
                      srv)
                else (case forwardedHeaders reqHeaders (routeInfo.apiType route) of
                        Inl e \<Rightarrow> (SentError 500 ''Internal server error'', srv)
                      | Inr hdrs \<Rightarrow>
                          (case getProviderClient srv (providerName route) (provider route) (legacy route) of
                             (None, srv') \<Rightarrow>
                               (SentError 503
                                  (''Provider '' @ apos @ providerName route @ apos @ '' not configured''),
                                srv')
                           | (Some cl, srv') \<Rightarrow>
                               (case clientMakeRequest rnd up cl hdrs
                                       (map_option statusCodeSet customStatusCodes) of
                                  (Inr resp, cl') \<Rightarrow>
                                    (Proxied resp,
                                     storeClient srv' (providerName route) (legacy route) cl')
                                | (Inl e, cl') \<Rightarrow>
                                    (SentError 500 ''Internal server error'',
                                     storeClient srv' (providerName route) (legacy route) cl'))))))"


section \<open>Properties of the directive parser\<close>

subsection \<open>Cleaning the auth header\<close>

lemma trim_shape:
  "trim s = [] \<or> (\<not> isWhiteSpace (hd (trim s)) \<and> \<not> isWhiteSpace (last (trim s)))"
proof (cases "trim s = []")
  case True
  then show ?thesis by simp
next
  case False
  let ?u = "dropWhile isWhiteSpace s"
  let ?v = "dropWhile isWhiteSpace (rev ?u)"
  have t: "trim s = rev ?v" by (simp add: trim_def)
  have v: "?v \<noteq> []" using False t by simp
  then have hv: "\<not> isWhiteSpace (hd ?v)" by (rule hd_dropWhile)
  have u: "?u \<noteq> []"
  proof
    assume e: "?u = []"
    have "?v = []" unfolding e by simp
    then show False using v by blast
  qed
  then have hu: "\<not> isWhiteSpace (hd ?u)" by (rule hd_dropWhile)
  obtain w where w: "rev ?u = w @ ?v"
    by (metis takeWhile_dropWhile_id)
  have "last (w @ ?v) = last ?v" using v by (rule last_appendR)
  then have "last ?v = last (rev ?u)" using w by metis
  also have "\<dots> = hd ?u" using u by (simp add: last_rev)
  finally have lv: "\<not> isWhiteSpace (last ?v)" using hu by simp
  show ?thesis using t v hv lv by (simp add: hd_rev last_rev)
qed

lemma trim_fixed:
  assumes "s = [] \<or> (\<not> isWhiteSpace (hd s) \<and> \<not> isWhiteSpace (last s))"
  shows "trim s = s"
proof (cases "s = []")
  case True
  then show ?thesis by (simp add: trim_def)
next
  case False
  then have h: "\<not> isWhiteSpace (hd s)" "\<not> isWhiteSpace (last s)" using assms by auto
  have 1: "dropWhile isWhiteSpace s = s" using False h(1) by (cases s) auto
  have 2: "dropWhile isWhiteSpace (rev s) = rev s"
    using False h(2) by (cases "rev s") (auto simp: hd_rev dest: arg_cong[where f=hd])
  show ?thesis by (simp add: trim_def 1 2)
qed

lemma trim_trim [simp]: "trim (trim s) = trim s"
  by (rule trim_fixed) (rule trim_shape)


lemma regexMatch_None_Cons:
  "regexMatch tag (c # cs) = None \<longleftrightarrow> matchAt tag (c # cs) = None \<and> regexMatch tag cs = None"
  by (auto split: option.splits)












subsection \<open>Headers made of plain text and directives\<close>

lemma upperAscii_bracket: "upperAscii c = CHR ''['' \<longleftrightarrow> c = CHR ''[''"
proof (cases "map_of (zip ''abcdefghijklmnopqrstuvwxyz'' ''ABCDEFGHIJKLMNOPQRSTUVWXYZ'') c")
  case None
  then show ?thesis by (simp add: upperAscii_def)
next
  case (Some u)
  then have "(c, u) \<in> set (zip ''abcdefghijklmnopqrstuvwxyz'' ''ABCDEFGHIJKLMNOPQRSTUVWXYZ'')"
    by (rule map_of_SomeD)
  then have "c \<in> set ''abcdefghijklmnopqrstuvwxyz''" "u \<in> set ''ABCDEFGHIJKLMNOPQRSTUVWXYZ''"
    by (auto dest: set_zip_leftD set_zip_rightD)
  then have "c \<noteq> CHR ''[''" "u \<noteq> CHR ''[''" by auto
  then show ?thesis using Some by (simp add: upperAscii_def)
qed

definition isTag :: "string \<Rightarrow> bool" where
  "isTag tag = (tag = statusCodesTag \<or> tag = accessKeyTag)"

lemma isTag_Cons: "isTag tag \<Longrightarrow> \<exists>t. tag = CHR ''['' # t \<and> CHR ''['' \<notin> set t"
  by (auto simp: isTag_def statusCodesTag_def accessKeyTag_def)

lemma matchAt_needs_bracket:
  assumes "isTag tag" "c \<noteq> CHR ''[''"
  shows "matchAt tag (c # s) = None"
proof -
  obtain t where t: "tag = CHR ''['' # t" using isTag_Cons[OF assms(1)] by blast
  have "map upperAscii (take (length tag) (c # s)) \<noteq> tag"
    using assms(2) by (simp add: t upperAscii_bracket)
  then show ?thesis by (simp add: matchAt_def)
qed

lemma remove_plain:
  "isTag tag \<Longrightarrow> CHR ''['' \<notin> set t \<Longrightarrow> regexRemoveAll tag (t @ s) = t @ regexRemoveAll tag s"
  by (induction t) (auto simp: matchAt_needs_bracket)

lemma takeWhile_until: "x \<notin> set body \<Longrightarrow> takeWhile (\<lambda>c. c \<noteq> x) (body @ x # s) = body"
  by (induction body) auto

lemma dropWhile_until: "x \<notin> set body \<Longrightarrow> dropWhile (\<lambda>c. c \<noteq> x) (body @ x # s) = x # s"
  by (induction body) auto

lemma matchAt_directive:
  assumes "map upperAscii tg = tag" "body \<noteq> []" "CHR '']'' \<notin> set body"
  shows "matchAt tag (tg @ body @ CHR '']'' # s) = Some (body, s)"
proof -
  have l: "length tg = length tag" using assms(1) by (metis length_map)
  have tw: "takeWhile (\<lambda>c. c \<noteq> CHR '']'') (body @ CHR '']'' # s) = body"
    using assms(3) by (rule takeWhile_until)
  have dw: "dropWhile (\<lambda>c. c \<noteq> CHR '']'') (body @ CHR '']'' # s) = CHR '']'' # s"
    using assms(3) by (rule dropWhile_until)
  show ?thesis
    using assms(1,2) by (simp add: matchAt_def l[symmetric] tw dw Let_def)
qed

lemma tag_written:
  assumes "map upperAscii tg = tag" "isTag tag"
  shows "\<exists>t. tg = CHR ''['' # t \<and> CHR ''['' \<notin> set t"
proof -
  obtain t where t: "tag = CHR ''['' # t" "CHR ''['' \<notin> set t"
    using isTag_Cons[OF assms(2)] by blast
  obtain c u where tg: "tg = c # u" "upperAscii c = CHR ''[''" "map upperAscii u = t"
    using assms(1) t(1) by (cases tg) auto
  have "CHR ''['' \<notin> set u"
  proof
    assume "CHR ''['' \<in> set u"
    then have "upperAscii (CHR ''['') \<in> set (map upperAscii u)" by (metis image_eqI set_map)
    then show False using tg(3) t(2) by (simp add: upperAscii_bracket[THEN iffD2])
  qed
  then show ?thesis using tg upperAscii_bracket by auto
qed

lemma tags_differ:
  assumes "map upperAscii tg = tag'" "isTag tag" "isTag tag'" "tag \<noteq> tag'"
  shows "matchAt tag (tg @ s) = None"
proof -
  have l: "length tg = length tag'" using assms(1) by (metis length_map)
  have "map upperAscii (take (length tag) (tg @ s)) ! 1 = tag' ! 1"
  proof -
    have "1 < length tg" "1 < length tag"
      using l assms(2,3) by (auto simp: isTag_def statusCodesTag_def accessKeyTag_def)
    then have "map upperAscii (take (length tag) (tg @ s)) ! 1 = upperAscii (tg ! 1)"
      by (simp add: nth_append)
    also have "\<dots> = map upperAscii tg ! 1" using \<open>1 < length tg\<close> by simp
    finally show ?thesis using assms(1) by simp
  qed
  moreover have "tag ! 1 \<noteq> tag' ! 1"
    using assms(2,3,4) by (auto simp: isTag_def statusCodesTag_def accessKeyTag_def)
  ultimately have "map upperAscii (take (length tag) (tg @ s)) \<noteq> tag" by metis
  then show ?thesis by (simp add: matchAt_def)
qed

lemma remove_other_directive:
  assumes "map upperAscii tg = tag'" "isTag tag" "isTag tag'" "tag \<noteq> tag'"
    "CHR ''['' \<notin> set body"
  shows "regexRemoveAll tag (tg @ body @ CHR '']'' # s) = tg @ body @ CHR '']'' # regexRemoveAll tag s"
proof -
  obtain t where t: "tg = CHR ''['' # t" "CHR ''['' \<notin> set t"
    using tag_written[OF assms(1,3)] by blast
  have n: "matchAt tag (CHR ''['' # t @ body @ CHR '']'' # s) = None"
    using tags_differ[OF assms(1-4), of "body @ CHR '']'' # s"] by (simp add: t)
  have "CHR ''['' \<notin> set (t @ body @ '']'')" using t(2) assms(5) by simp
  from remove_plain[OF assms(2) this, of s]
  show ?thesis using n by (simp add: t)
qed

lemma remove_render:
  assumes "isTag tag" "list_all wellFormed segs"
  shows "regexRemoveAll tag (render segs) = render (dropDirectives tag segs)"
  using assms(2)
proof (induction segs)
  case Nil
  then show ?case by simp
next
  case (Cons seg segs)
  then have ih: "regexRemoveAll tag (render segs) = render (dropDirectives tag segs)"
    and wf: "wellFormed seg" by simp_all
  show ?case
  proof (cases seg)
    case (Plain t)
    then show ?thesis using wf ih remove_plain[OF assms(1)] by simp
  next
    case (Directive tg body)
    have b: "body \<noteq> []" "CHR ''['' \<notin> set body" "CHR '']'' \<notin> set body"
      and tg: "isTag (map upperAscii tg)"
      using wf Directive by (auto simp: isTag_def)
    show ?thesis
    proof (cases "map upperAscii tg = tag")
      case True
      obtain t where t: "tg = CHR ''['' # t" using tag_written[OF True assms(1)] by blast
      have "matchAt tag (tg @ body @ CHR '']'' # render segs) = Some (body, render segs)"
        by (rule matchAt_directive[OF True b(1) b(3)])
      then show ?thesis using Directive True ih by (simp add: t)
    next
      case False
      have "regexRemoveAll tag (tg @ body @ CHR '']'' # render segs)
              = tg @ body @ CHR '']'' # regexRemoveAll tag (render segs)"
        using remove_other_directive[OF refl assms(1) tg _ b(2)] False by blast
      then show ?thesis using Directive False ih by simp
    qed
  qed
qed

lemma wellFormed_dropDirectives:
  "list_all wellFormed segs \<Longrightarrow> list_all wellFormed (dropDirectives tag segs)"
  by (induction tag segs rule: dropDirectives.induct) auto

lemma render_no_directives:
  "list_all wellFormed segs \<Longrightarrow>
   render (dropDirectives accessKeyTag (dropDirectives statusCodesTag segs)) = plainText segs"
  by (induction segs rule: plainText.induct) auto

lemma clean_render:
  assumes "list_all wellFormed segs"
  shows "regexRemoveAll accessKeyTag (regexRemoveAll statusCodesTag (render segs)) = plainText segs"
proof -
  have 1: "regexRemoveAll statusCodesTag (render segs) = render (dropDirectives statusCodesTag segs)"
    by (rule remove_render[OF _ assms]) (simp add: isTag_def)
  have 2: "regexRemoveAll accessKeyTag (render (dropDirectives statusCodesTag segs))
            = render (dropDirectives accessKeyTag (dropDirectives statusCodesTag segs))"
    by (rule remove_render[OF _ wellFormed_dropDirectives[OF assms]]) (simp add: isTag_def)
  show ?thesis using 1 2 render_no_directives[OF assms] by simp
qed


lemma trim_not_Bearer_space: "trim s \<noteq> ''Bearer ''"
  using trim_shape[of s] by (auto simp: isWhiteSpace_def)

lemma map_of_setHeader: "map_of (setHeader name v hdrs) name = Some v"
  by (induction name v hdrs rule: setHeader.induct) auto

lemma map_of_filter_out:
  "(\<And>v. \<not> P (k, v)) \<Longrightarrow> map_of (filter P hdrs) k = None"
  by (induction hdrs) auto

lemma relevant_without_auth:
  assumes "apiType' = ''openai'' \<or> apiType' = ''gemini''"
  shows "\<exists>hdrs. extractRelevantHeaders reqHeaders apiType' = Inr hdrs \<and>
           map_of hdrs (authHeaderName apiType') = None"
  using assms
  by (auto simp: extractRelevantHeaders_def authHeaderName_def lowerAscii_def
      intro!: map_of_filter_out)

text \<open>
  C8 (as amended). Take an auth header made of plain text without \<open>[\<close> and of
  directives \<open>[STATUS_CODES:body]\<close> and \<open>[ACCESS_KEY:body]\<close>, the tags in any case, the
  bodies non-empty and free of brackets. \<open>cleanAuthHeader\<close> gives the plain text, joined
  and trimmed, unless that is \<open>Bearer\<close>, when it gives \<open>null\<close> (\<open>Bearer\<close> with a trailing
  space cannot be left by \<open>trim\<close>). For an \<open>openai\<close> or \<open>gemini\<close> provider the dispatcher then
  forwards the cleaned header under \<open>authorization\<close> and \<open>x-goog-api-key\<close> respectively when
  it is neither \<open>null\<close> nor empty, and forwards no auth header otherwise.
\<close>

theorem cleanAuthHeader_forwarding:
  assumes "list_all wellFormed segs" and "render segs \<noteq> []"
    and "apiType' = ''openai'' \<or> apiType' = ''gemini''"
    and "map_of reqHeaders (authHeaderName apiType') = Some (render segs)"
  shows "cleanAuthHeader (Some (render segs)) =
           (if trim (plainText segs) = ''Bearer'' then None else Some (trim (plainText segs))) \<and>
         authHeaderName apiType' =
           (if apiType' = ''gemini'' then ''x-goog-api-key'' else ''authorization'') \<and>
         (\<exists>fw. forwardedHeaders reqHeaders apiType' = Inr fw \<and>
            map_of fw (authHeaderName apiType') =
              (if trim (plainText segs) = ''Bearer'' \<or> trim (plainText segs) = [] then None
               else Some (trim (plainText segs))))"
proof -
  let ?c = "trim (plainText segs)"
  have cl: "cleanAuthHeader (Some (render segs)) = (if ?c = ''Bearer'' then None else Some ?c)"
    using assms(2) clean_render[OF assms(1)] trim_not_Bearer_space[of "plainText segs"]
    by (simp add: cleanAuthHeader_def Let_def)
  obtain hdrs where h: "extractRelevantHeaders reqHeaders apiType' = Inr hdrs"
      "map_of hdrs (authHeaderName apiType') = None"
    using relevant_without_auth[OF assms(3)] by blast
  have fw: "forwardedHeaders reqHeaders apiType' =
      Inr (if ?c = ''Bearer'' \<or> ?c = [] then hdrs else setHeader (authHeaderName apiType') ?c hdrs)"
    using assms(2,4) h(1) cl by (simp add: forwardedHeaders_def Let_def)
  show ?thesis
    using cl fw h(2) by (auto simp: map_of_setHeader authHeaderName_def)
qed

theorem cleanAuthHeader_forwarding_witness:
  "cleanAuthHeader (Some ''Bearer [STATUS_CODES:500,502-504][access_key:topsecret]sk-abc'')
     = Some ''Bearer sk-abc'' \<and>
   (\<exists>fw. forwardedHeaders
      [(''accept'', ''*/*''),
       (''authorization'', ''Bearer [STATUS_CODES:500,502-504][access_key:topsecret]sk-abc'')]
      ''openai'' = Inr fw \<and> map_of fw ''authorization'' = Some ''Bearer sk-abc'')"
proof -
  let ?segs = "[Plain ''Bearer '', Directive ''[STATUS_CODES:'' ''500,502-504'',
                Directive ''[access_key:'' ''topsecret'', Plain ''sk-abc'']"
  let ?h = "''Bearer [STATUS_CODES:500,502-504][access_key:topsecret]sk-abc''"
  have w: "list_all wellFormed ?segs" by code_simp
  have r: "render ?segs = ?h" by simp
  have n: "render ?segs \<noteq> []" by simp
  have t: "trim (plainText ?segs) = ''Bearer sk-abc''" by code_simp
  have m: "map_of [(''accept'', ''*/*''), (''authorization'', ?h)] (authHeaderName ''openai'')
             = Some (render ?segs)"
    by (simp add: authHeaderName_def)
  from cleanAuthHeader_forwarding[OF w n disjI1[OF refl] m]
  show ?thesis unfolding t r by (simp add: authHeaderName_def)
qed

text \<open>
  C8 as stated fails. A header that is nothing but directives is cleaned to the empty
  string, which is not \<open>Bearer\<close> and yet is not forwarded. And a directive whose body
  holds a \<open>[\<close> need not be stripped: here the inner directive goes and the outer stays.
\<close>

theorem cleanAuthHeader_forwarding_counterexample:
  "cleanAuthHeader (Some ''[ACCESS_KEY:s3cret]'') = Some [] \<and>
   forwardedHeaders [(''x-goog-api-key'', ''[ACCESS_KEY:s3cret]'')] ''gemini'' = Inr [] \<and>
   matchAt accessKeyTag ''[ACCESS_KEY:a[STATUS_CODES:429]'' = Some (''a[STATUS_CODES:429'', []) \<and>
   cleanAuthHeader (Some ''[ACCESS_KEY:a[STATUS_CODES:429]'') = Some ''[ACCESS_KEY:a''"
  by code_simp


subsection \<open>Numbers and the range loop\<close>

lemma roundDouble_exact: "v < 2 ^ 53 \<Longrightarrow> roundDouble v = Some v"
  by (simp add: roundDouble_def)

lemma roundDouble_limit: "roundDouble (2 ^ 53) = Some (2 ^ 53)"
  by code_simp

lemma toNumber_exact: "\<bar>v\<bar> \<le> 2 ^ 53 \<Longrightarrow> toNumber v = Finite v"
proof -
  assume a: "\<bar>v\<bar> \<le> 2 ^ 53"
  have "roundDouble \<bar>v\<bar> = Some \<bar>v\<bar>"
  proof (cases "\<bar>v\<bar> < 2 ^ 53")
    case True
    then show ?thesis by (rule roundDouble_exact)
  next
    case False
    then have "\<bar>v\<bar> = 2 ^ 53" using a by simp
    then show ?thesis using roundDouble_limit by simp
  qed
  then show ?thesis by (simp add: toNumber_def)
qed

lemma increment_exact: "- (2 ^ 53) \<le> i \<Longrightarrow> i < 2 ^ 53 \<Longrightarrow> increment (Finite i) = Finite (i + 1)"
  by (simp add: toNumber_exact)

lemma codeRange_empty: "b < a \<Longrightarrow> codeRange a b = {||}"
  by (simp add: codeRange_def)

lemma codeRange_rec: "a \<le> b \<Longrightarrow> codeRange a b = finsert (Finite a) (codeRange (a + 1) b)"
  by (simp add: codeRange_def upto_rec1)

lemma fcard_codeRange: "int (fcard (codeRange a b)) = (if a \<le> b then b - a + 1 else 0)"
proof -
  have "distinct (map Finite [a..b])" by (simp add: distinct_map inj_on_def)
  then have "card (set (map Finite [a..b])) = length (map Finite [a..b])"
    by (rule distinct_card)
  then have "fcard (codeRange a b) = length [a..b]"
    unfolding codeRange_def fcard.rep_eq fset_of_list.rep_eq by simp
  then show ?thesis by simp
qed


lemma setAdd_room:
  "int (fcard (finsert v codes)) \<le> maxSetSize \<Longrightarrow> setAdd v codes = Inr (finsert v codes)"
  by (auto simp: setAdd_def fcard_finsert_if finsert_absorb split: if_splits)

lemma setAdd_full:
  "v |\<notin>| codes \<Longrightarrow> maxSetSize \<le> int (fcard codes) \<Longrightarrow>
   setAdd v codes = Inl (Error ''Set maximum size exceeded'')"
  by (simp add: setAdd_def)


lemma addRange_step:
  "i \<le> stop \<Longrightarrow> setAdd (Finite i) codes = Inr codes' \<Longrightarrow>
   addRange (Finite i) (Finite stop) codes = addRange (increment (Finite i)) (Finite stop) codes'"
  by (subst addRange.simps) simp

lemma addRange_throw:
  "i \<le> stop \<Longrightarrow> setAdd (Finite i) codes = Inl e \<Longrightarrow>
   addRange (Finite i) (Finite stop) codes = Some (Inl e)"
  by (subst addRange.simps) simp


lemma addRange_overflow:
  assumes "stop < 2 ^ 53"
  shows "- (2 ^ 53) \<le> i \<Longrightarrow> int (fcard codes) \<le> maxSetSize \<Longrightarrow>
         maxSetSize < int (fcard (codes |\<union>| codeRange i stop)) \<Longrightarrow>
         addRange (Finite i) (Finite stop) codes = Some (Inl (Error ''Set maximum size exceeded''))"
proof (induction "nat (stop + 1 - i)" arbitrary: i codes)
  case 0
  then have "stop < i" by simp
  then have "codeRange i stop = {||}" by (rule codeRange_empty)
  then show ?case using "0.prems" by simp
next
  case (Suc n)
  then have le: "i \<le> stop" by linarith
  have inc: "increment (Finite i) = Finite (i + 1)"
    using le assms Suc.prems(1) by (intro increment_exact) auto
  have rec: "codeRange i stop = finsert (Finite i) (codeRange (i + 1) stop)"
    using le by (rule codeRange_rec)
  have n: "n = nat (stop + 1 - (i + 1))" using Suc.hyps(2) by linarith
  have lo: "- (2 ^ 53) \<le> i + 1" using Suc.prems(1) by simp
  have un: "finsert (Finite i) codes |\<union>| codeRange (i + 1) stop = codes |\<union>| codeRange i stop"
    unfolding rec by auto
  show ?case
  proof (cases "Finite i |\<notin>| codes \<and> maxSetSize \<le> int (fcard codes)")
    case True
    then show ?thesis using addRange_throw[OF le setAdd_full] by blast
  next
    case False
    have room: "int (fcard (finsert (Finite i) codes)) \<le> maxSetSize"
      using False Suc.prems(2) by (auto simp: fcard_finsert_if)
    have add: "setAdd (Finite i) codes = Inr (finsert (Finite i) codes)"
      using room by (rule setAdd_room)
    have "addRange (Finite (i + 1)) (Finite stop) (finsert (Finite i) codes) =
            Some (Inl (Error ''Set maximum size exceeded''))"
      using Suc.hyps(1)[OF n lo room] Suc.prems(3) by (simp only: un)
    then show ?thesis using addRange_step[OF le add] inc by simp
  qed
qed






subsection \<open>The status code grammar\<close>

lemma regexMatch_found:
  assumes "isTag tag" "map upperAscii tg = tag" "body \<noteq> []" "CHR '']'' \<notin> set body"
  shows "CHR ''['' \<notin> set pre \<Longrightarrow> regexMatch tag (pre @ tg @ body @ CHR '']'' # post) = Some body"
proof (induction pre)
  case Nil
  obtain t where t: "tg = CHR ''['' # t" using tag_written[OF assms(2,1)] by blast
  have "matchAt tag (tg @ body @ CHR '']'' # post) = Some (body, post)"
    by (rule matchAt_directive[OF assms(2-4)])
  then show ?case by (simp add: t)
next
  case (Cons c pre)
  have "c \<noteq> CHR ''[''" using Cons.prems by auto
  then have "matchAt tag (c # (pre @ tg @ body @ CHR '']'' # post)) = None"
    by (rule matchAt_needs_bracket[OF assms(1)])
  then show ?case using Cons by simp
qed

lemma regexMatch_no_bracket:
  "isTag tag \<Longrightarrow> CHR ''['' \<notin> set s \<Longrightarrow> regexMatch tag s = None"
  by (induction s) (auto simp: matchAt_needs_bracket)

lemma regexMatch_empty_body:
  assumes "isTag tag" "map upperAscii tg = tag" "CHR ''['' \<notin> set post"
  shows "CHR ''['' \<notin> set pre \<Longrightarrow> regexMatch tag (pre @ tg @ CHR '']'' # post) = None"
proof (induction pre)
  case Nil
  obtain t where t: "tg = CHR ''['' # t" "CHR ''['' \<notin> set t"
    using tag_written[OF assms(2,1)] by blast
  have l: "length tg = length tag" using assms(2) by (metis length_map)
  have m: "matchAt tag (tg @ CHR '']'' # post) = None"
    by (simp add: matchAt_def l[symmetric] Let_def)
  have "regexMatch tag (t @ CHR '']'' # post) = None"
    by (rule regexMatch_no_bracket[OF assms(1)]) (use t(2) assms(3) in simp)
  then show ?case using m by (simp add: t)
next
  case (Cons c pre)
  have "c \<noteq> CHR ''[''" using Cons.prems by auto
  then have "matchAt tag (c # (pre @ tg @ CHR '']'' # post)) = None"
    by (rule matchAt_needs_bracket[OF assms(1)])
  then show ?case using Cons by simp
qed

lemma jsSplit_single: "sep \<notin> set b \<Longrightarrow> jsSplit sep b = [b]"
  by (induction b) auto

lemma jsSplit_append: "sep \<notin> set a \<Longrightarrow> jsSplit sep (a @ sep # s) = a # jsSplit sep s"
  by (induction a) auto

lemma digit_cases:
  "c \<in> set ''0123456789'' \<Longrightarrow>
     digitOf 10 c \<noteq> None \<and> \<not> isWhiteSpace c \<and>
     c \<notin> {CHR ''-'', CHR ''+'', CHR ''='', CHR ''x'', CHR ''X''}"
proof -
  assume "c \<in> set ''0123456789''"
  then have "c = CHR ''0'' \<or> c = CHR ''1'' \<or> c = CHR ''2'' \<or> c = CHR ''3'' \<or> c = CHR ''4'' \<or>
             c = CHR ''5'' \<or> c = CHR ''6'' \<or> c = CHR ''7'' \<or> c = CHR ''8'' \<or> c = CHR ''9''"
    by simp
  then show ?thesis
    by (elim disjE) (simp_all add: digitOf_def isWhiteSpace_def)
qed

lemma isDigits_D:
  assumes "isDigits a"
  shows "a \<noteq> []" "\<And>c. c \<in> set a \<Longrightarrow> c \<in> set ''0123456789''"
  using assms by (auto simp: isDigits_def list_all_iff)

lemma isDigits_ends:
  assumes "isDigits a"
  shows "hd a \<in> set ''0123456789''" "last a \<in> set ''0123456789''"
  using isDigits_D[OF assms] by (metis hd_in_set, metis last_in_set)

lemma trim_digits: "isDigits a \<Longrightarrow> trim a = a"
  using isDigits_ends[of a] digit_cases by (intro trim_fixed) blast

lemma takeWhile_digits:
  assumes "isDigits a" "rest = [] \<or> digitOf 10 (hd rest) = None"
  shows "takeWhile (\<lambda>c. digitOf 10 c \<noteq> None) (a @ rest) = a"
proof -
  have all: "\<forall>c\<in>set a. digitOf 10 c \<noteq> None"
    using isDigits_D(2)[OF assms(1)] digit_cases by blast
  have "takeWhile (\<lambda>c. digitOf 10 c \<noteq> None) rest = []"
    using assms(2) by (cases rest) auto
  then show ?thesis using all by (simp add: takeWhile_append2)
qed

lemma parseInt_digits:
  assumes "isDigits a"
    and "rest = [] \<or> (digitOf 10 (hd rest) = None \<and> hd rest \<noteq> CHR ''x'' \<and> hd rest \<noteq> CHR ''X'')"
  shows "parseInt (a @ rest) = Some (toNumber (decimal a))"
proof -
  let ?s = "a @ rest"
  obtain c cs where a: "a = c # cs" using isDigits_D(1)[OF assms(1)] by (cases a) auto
  have c: "c \<in> set ''0123456789''" using isDigits_D(2)[OF assms(1)] a by simp
  have ws: "dropWhile isWhiteSpace ?s = ?s" using digit_cases[OF c] by (simp add: a)
  have sg: "hd ?s \<noteq> CHR ''-''" "hd ?s \<noteq> CHR ''+''" using digit_cases[OF c] by (simp_all add: a)
  have nx: "?s ! 1 \<noteq> CHR ''x'' \<and> ?s ! 1 \<noteq> CHR ''X''" if "length ?s \<ge> 2"
  proof (cases cs)
    case Nil
    then have "rest \<noteq> []" using that a by auto
    then have "?s ! 1 = hd rest" using Nil a by (cases rest) auto
    then show ?thesis using assms(2) \<open>rest \<noteq> []\<close> by auto
  next
    case (Cons d ds)
    then have "d \<in> set ''0123456789''" using isDigits_D(2)[OF assms(1)] a by simp
    then show ?thesis using digit_cases Cons a by auto
  qed
  have h1: "(?s \<noteq> [] \<and> (hd ?s = CHR ''+'' \<or> hd ?s = CHR ''-'')) = False"
    using sg by simp
  have h2: "(?s \<noteq> [] \<and> hd ?s = CHR ''-'') = False"
    using sg by simp
  have h3: "(length ?s \<ge> 2 \<and> hd ?s = CHR ''0'' \<and> (?s ! 1 = CHR ''x'' \<or> ?s ! 1 = CHR ''X'')) = False"
    using nx by blast
  have tw: "takeWhile (\<lambda>c. digitOf 10 c \<noteq> None) ?s = a"
    using takeWhile_digits[OF assms(1)] assms(2) by blast
  have "parseInt ?s = (if a = [] then None else Some (toNumber (1 * digitsValue 10 a)))"
    unfolding parseInt_def Let_def ws h1 h2 h3 if_False tw ..
  then show ?thesis using a by (simp add: decimal_def)
qed

lemma digits_nonneg:
  "0 \<le> acc \<Longrightarrow>
   0 \<le> foldl (\<lambda>acc c. acc * int radix + (case digitOf radix c of Some d \<Rightarrow> int d | None \<Rightarrow> 0))
         acc ds"
  by (induction ds arbitrary: acc) (auto split: option.splits)

lemma decimal_nonneg: "0 \<le> decimal a"
  unfolding decimal_def digitsValue_def by (rule digits_nonneg) simp

lemma isInteger_D:
  assumes "isInteger a"
  shows "isDigits a" "decimal a < 2 ^ 53" "toNumber (decimal a) = Finite (decimal a)"
  using assms decimal_nonneg[of a] by (auto simp: isInteger_def intro!: toNumber_exact)




lemma no_dash: "isDigits a \<Longrightarrow> CHR ''-'' \<notin> set a"
  using isDigits_D(2) digit_cases by blast


lemma termCodes_range_digits:
  "isDigits a \<Longrightarrow> isDigits b \<Longrightarrow>
   termCodes (a @ ''-'' @ b) codes = addRange (toNumber (decimal a)) (toNumber (decimal b)) codes"
  using parseInt_digits[of a "[]"] parseInt_digits[of b "[]"]
  by (simp add: termCodes_def jsSplit_append jsSplit_single no_dash trim_digits)

lemma termCodes_range:
  "isInteger a \<Longrightarrow> isInteger b \<Longrightarrow>
   termCodes (a @ ''-'' @ b) codes = addRange (Finite (decimal a)) (Finite (decimal b)) codes"
  using termCodes_range_digits[of a b codes] isInteger_D[of a] isInteger_D[of b] by simp














lemma regexMatch_skip:
  "isTag tag \<Longrightarrow> CHR ''['' \<notin> set t \<Longrightarrow> regexMatch tag (t @ s) = regexMatch tag s"
proof (induction t)
  case Nil
  then show ?case by simp
next
  case (Cons c t)
  then have "matchAt tag (c # t @ s) = None" by (intro matchAt_needs_bracket) auto
  then show ?case using Cons by simp
qed

lemma regexMatch_other_directive:
  assumes "map upperAscii tg = tag'" "isTag tag" "isTag tag'" "tag \<noteq> tag'"
    "CHR ''['' \<notin> set body"
  shows "regexMatch tag (tg @ body @ CHR '']'' # s) = regexMatch tag s"
proof -
  obtain t where t: "tg = CHR ''['' # t" "CHR ''['' \<notin> set t"
    using tag_written[OF assms(1,3)] by blast
  have n: "matchAt tag (CHR ''['' # t @ body @ CHR '']'' # s) = None"
    using tags_differ[OF assms(1-4), of "body @ CHR '']'' # s"] by (simp add: t)
  have "CHR ''['' \<notin> set (t @ body @ '']'')" using t(2) assms(5) by simp
  from regexMatch_skip[OF assms(2) this, of s]
  show ?thesis using n by (simp add: t)
qed

lemma regexMatch_render:
  assumes "list_all wellFormed segs" "\<not> list_ex isStatusCodes segs"
  shows "regexMatch statusCodesTag (render segs @ s) = regexMatch statusCodesTag s"
  using assms
proof (induction segs)
  case Nil
  then show ?case by simp
next
  case (Cons seg segs)
  then have ih: "regexMatch statusCodesTag (render segs @ s) = regexMatch statusCodesTag s"
    and wf: "wellFormed seg" and ns: "\<not> isStatusCodes seg" by simp_all
  have tag: "isTag statusCodesTag" by (simp add: isTag_def)
  show ?case
  proof (cases seg)
    case (Plain t)
    then show ?thesis using wf ih regexMatch_skip[OF tag, of t "render segs @ s"] by simp
  next
    case (Directive tg body)
    then have a: "map upperAscii tg = accessKeyTag" and b: "CHR ''['' \<notin> set body"
      using wf ns by auto
    have "regexMatch statusCodesTag (tg @ body @ CHR '']'' # (render segs @ s)) =
            regexMatch statusCodesTag (render segs @ s)"
      by (rule regexMatch_other_directive[OF a tag _ _ b])
         (simp_all add: isTag_def statusCodesTag_def accessKeyTag_def)
    then show ?thesis using Directive ih by simp
  qed
qed

lemma statusCodes_found:
  assumes "list_all wellFormed segs" "\<not> list_ex isStatusCodes segs"
    and "map upperAscii tg = statusCodesTag" "spec \<noteq> []" "CHR '']'' \<notin> set spec"
  shows "regexMatch statusCodesTag (render segs @ tg @ spec @ '']'' @ post) = Some spec"
proof -
  have tag: "isTag statusCodesTag" by (simp add: isTag_def)
  have "regexMatch statusCodesTag ([] @ tg @ spec @ CHR '']'' # post) = Some spec"
    by (rule regexMatch_found[OF tag assms(3-5)]) simp
  then show ?thesis using regexMatch_render[OF assms(1,2)] by simp
qed


lemma parseStatusCodes_found:
  assumes "list_all wellFormed segs" "\<not> list_ex isStatusCodes segs"
    and "map upperAscii tg = statusCodesTag" "spec \<noteq> []" "CHR '']'' \<notin> set spec"
  shows "parseStatusCodesFromAuth (Some (render segs @ tg @ spec @ '']'' @ post)) =
           (case addParts (map trim (jsSplit CHR '','' spec)) {||} of
              None \<Rightarrow> None
            | Some (Inl e) \<Rightarrow> Some (Inl e)
            | Some (Inr codes) \<Rightarrow> Some (Inr (if codes = {||} then None else Some codes)))"
proof -
  have z: "(0 < fcard c) = (c \<noteq> {||})" for c :: "number fset"
    by (cases "c = {||}") (auto simp: fcard_fempty dest: fcard_0_eq[THEN iffD1])
  show ?thesis
    using statusCodes_found[OF assms, of post]
    by (simp add: parseStatusCodesFromAuth_def z split: option.splits sum.splits)
qed



lemma termCodes_overflow:
  assumes "isInteger a" "isInteger b" "int (fcard codes) \<le> maxSetSize"
    "maxSetSize < int (fcard (codes |\<union>| contribution (Range a b)))"
  shows "termCodes (written (Range a b)) codes = Some (Inl (Error ''Set maximum size exceeded''))"
proof -
  have "addRange (Finite (decimal a)) (Finite (decimal b)) codes =
          Some (Inl (Error ''Set maximum size exceeded''))"
    using assms isInteger_D(2)[of b] decimal_nonneg[of a] by (intro addRange_overflow) auto
  then show ?thesis using termCodes_range[OF assms(1,2), of codes] by simp
qed








lemma decimal_numerals:
  "decimal ''0'' = 0" "decimal ''16777216'' = 2 ^ 24" "decimal ''9007199254740992'' = 2 ^ 53"
  by code_simp+


lemma overflow_example:
  "parseStatusCodesFromAuth (Some ''Bearer [STATUS_CODES:0-16777216]'') =
     Some (Inl (Error ''Set maximum size exceeded''))"
proof -
  let ?spec = "''0-16777216''"
  have d: "isDigits ''0''" "isDigits ''16777216''" by code_simp+
  have i: "isInteger ''0''" "isInteger ''16777216''"
    using d by (simp_all add: isInteger_def decimal_numerals)
  have w: "list_all wellFormed [Plain ''Bearer '']" "\<not> list_ex isStatusCodes [Plain ''Bearer '']"
    by code_simp+
  have u: "map upperAscii ''[STATUS_CODES:'' = statusCodesTag" by code_simp
  have s: "map trim (jsSplit CHR '','' ?spec) = [?spec]" by code_simp
  have c: "int (fcard ({||} |\<union>| contribution (Range ''0'' ''16777216''))) = 2 ^ 24 + 1"
    by (simp add: fcard_codeRange decimal_numerals)
  have "termCodes (written (Range ''0'' ''16777216'')) {||} =
          Some (Inl (Error ''Set maximum size exceeded''))"
    by (rule termCodes_overflow[OF i]) (simp_all only: c, simp_all add: maxSetSize_def fcard_fempty)
  then have "addParts (map trim (jsSplit CHR '','' ?spec)) {||} =
          Some (Inl (Error ''Set maximum size exceeded''))"
    unfolding s by simp
  then show ?thesis
    using parseStatusCodes_found[OF w u, of ?spec "[]"] by simp
qed





section \<open>Empty pools\<close>

text \<open>
  The start of the server (\<open>main\<close> in index.js with the constructor of \<open>ProxyServer\<close>, and
  \<open>reinitializeClients\<close> alike): a legacy client is built only for a non-empty list of
  legacy keys, and the cache of provider clients starts empty.
\<close>

definition startServer ::
  "(string \<rightharpoonup> provider) \<Rightarrow> string list \<Rightarrow> string \<Rightarrow> string list \<Rightarrow> string \<Rightarrow> ProxyServer" where
  "startServer cfg geminiApiKeys geminiBaseUrl openaiApiKeys openaiBaseUrl =
     \<lparr> config = cfg,
       geminiClient =
         (if length geminiApiKeys > 0
          then Some (GeminiClient \<lparr>KeyRotator.apiKeys = geminiApiKeys, lastFailedKey = None\<rparr>
                       geminiBaseUrl)
          else None),
       openaiClient =
         (if length openaiApiKeys > 0
          then Some (OpenAIClient \<lparr>KeyRotator.apiKeys = openaiApiKeys, lastFailedKey = None\<rparr>
                       openaiBaseUrl)
          else None),
       providerClients = Map.empty \<rparr>"

lemma smartShuffle_Nil: "smartShuffle rnd [] h = []"
  using mset_smartShuffle[of rnd "[]" h] by simp

lemma rotate_empty_pool:
  assumes "KeyRotator.apiKeys rot = []"
  shows "trace (rotationPath fl rnd up rot custom) = [] \<and>
         returned (rotationPath fl rnd up rot custom) =
           Inl (Error ''All API keys exhausted without clear error'')"
proof -
  let ?c = "createRequestContext rnd rot"
  let ?st = "\<lparr> requestContext = ?c, lastError = None, lastResponse = None, attempts = [] \<rparr>"
  have c: "RequestKeyContext.apiKeys ?c = []" "triedKeys ?c = {||}"
    using assms by (simp_all add: createRequestContext_def newRequestKeyContext_def smartShuffle_Nil)
  have g: "getNextKey (requestContext ?st) = (None, ?c)"
    using c by (simp add: getNextKey_def)
  have "rotationPath fl rnd up rot custom = finalize fl rot (?st\<lparr>requestContext := ?c\<rparr>)"
    unfolding rotationPath_def by (rule rl_exhaust[OF g])
  then show ?thesis
    using c by (simp add: finalize_def Let_def allTriedKeysRateLimited_def fcard_fempty)
qed

lemma client_empty_pool:
  assumes "cl = OpenAIClient rot url \<or>
           (cl = GeminiClient rot url \<and> map_of hdrs ''x-goog-api-key'' \<in> {None, Some []})"
    and "KeyRotator.apiKeys rot = []"
  shows "fst (clientMakeRequest rnd up cl hdrs custom) =
           Inl (Error ''All API keys exhausted without clear error'')"
  using assms(1) rotate_empty_pool[OF assms(2)]
  by (auto simp: clientMakeRequest_def OpenAIClient_makeRequest_def GeminiClient_makeRequest_def
      Let_def)

lemma gemini_client_key:
  assumes "map_of hdrs ''x-goog-api-key'' = Some k" "k \<noteq> []"
  shows "GeminiClient_makeRequest rnd up rot hdrs custom =
           Direct (case up 0 (Str k) of Resolved r \<Rightarrow> Inr r | Rejected err \<Rightarrow> Inl err)"
  using assms by (simp add: GeminiClient_makeRequest_def split: attempt.splits)

lemma handleRoute_parsed:
  assumes "parseStatusCodesFromAuth (map_of reqHeaders (authHeaderName (routeInfo.apiType route))) =
             Some (Inr custom)"
    and "validateAccessKey srv (providerName route)
             (map_of reqHeaders (authHeaderName (routeInfo.apiType route)))"
    and "forwardedHeaders reqHeaders (routeInfo.apiType route) = Inr hdrs"
  shows "map_option fst (handleRoute rnd up srv route reqHeaders) =
           Some (case getProviderClient srv (providerName route) (provider route) (legacy route) of
                   (None, srv') \<Rightarrow>
                     SentError 503 (''Provider '' @ apos @ providerName route @ apos @ '' not configured'')
                 | (Some cl, srv') \<Rightarrow>
                     (case fst (clientMakeRequest rnd up cl hdrs (map_option statusCodeSet custom)) of
                        Inr resp \<Rightarrow> Proxied resp
                      | Inl e \<Rightarrow> SentError 500 ''Internal server error''))"
  using assms
  by (simp add: handleRoute_def Let_def split: prod.splits option.splits sum.splits)

text \<open>
  C6 (as amended). The dispatcher parses the status codes first: when that throws, the
  answer is 500, and when it does not return there is no answer. Otherwise let the
  request pass the access check and the building of its headers. When
  \<open>getProviderClient\<close> finds no client for the route, the dispatcher answers 503 with the
  message that the provider is not configured; that is the case for a legacy route
  (\<open>gemini\<close> or \<open>openai\<close>) on a server started with an empty list of legacy keys for it.
  No such answer comes from \<open>makeRequest\<close>. On the rotation path (the OpenAI client, and
  the Gemini client when the headers it is given hold no key of the caller's) a pool of
  zero keys makes no upstream attempt and throws
  \<open>All API keys exhausted without clear error\<close>, and the dispatcher answers 500 with
  \<open>Internal server error\<close>. A Gemini client that is given a key of the caller's makes one
  upstream attempt with that key, whatever its pool, and the dispatcher passes the
  response on, or answers 500 when the attempt fails.
\<close>

theorem empty_pool_dispatch:
  "(parseStatusCodesFromAuth (map_of reqHeaders (authHeaderName (routeInfo.apiType route))) = None
      \<longrightarrow> handleRoute rnd up srv route reqHeaders = None) \<and>
   (parseStatusCodesFromAuth (map_of reqHeaders (authHeaderName (routeInfo.apiType route))) =
      Some (Inl e)
      \<longrightarrow> handleRoute rnd up srv route reqHeaders =
            Some (SentError 500 ''Internal server error'', srv)) \<and>
   (parseStatusCodesFromAuth (map_of reqHeaders (authHeaderName (routeInfo.apiType route))) =
      Some (Inr custom) \<and>
    validateAccessKey srv (providerName route)
      (map_of reqHeaders (authHeaderName (routeInfo.apiType route))) \<and>
    forwardedHeaders reqHeaders (routeInfo.apiType route) = Inr hdrs
      \<longrightarrow>
      (fst (getProviderClient srv (providerName route) (provider route) (legacy route)) = None
         \<longrightarrow> map_option fst (handleRoute rnd up srv route reqHeaders) =
               Some (SentError 503
                       (''Provider '' @ apos @ providerName route @ apos @ '' not configured''))) \<and>
      (fst (getProviderClient srv (providerName route) (provider route) (legacy route)) = Some cl \<and>
       (cl = OpenAIClient rot url \<or>
        (cl = GeminiClient rot url \<and> map_of hdrs ''x-goog-api-key'' \<in> {None, Some []})) \<and>
       KeyRotator.apiKeys rot = []
         \<longrightarrow> map_option fst (handleRoute rnd up srv route reqHeaders) =
               Some (SentError 500 ''Internal server error'')) \<and>
      (fst (getProviderClient srv (providerName route) (provider route) (legacy route)) =
         Some (GeminiClient rot url) \<and>
       map_of hdrs ''x-goog-api-key'' = Some k \<and> k \<noteq> []
         \<longrightarrow> map_option fst (handleRoute rnd up srv route reqHeaders) =
               Some (case up 0 (Str k) of
                       Resolved r \<Rightarrow> Proxied r
                     | Rejected err \<Rightarrow> SentError 500 ''Internal server error''))) \<and>
   (srv = startServer cfg [] geminiBaseUrl openaiApiKeys openaiBaseUrl \<and>
    providerName route = ''gemini'' \<and> legacy route
      \<longrightarrow> fst (getProviderClient srv (providerName route) (provider route) (legacy route)) = None) \<and>
   (srv = startServer cfg geminiApiKeys geminiBaseUrl [] openaiBaseUrl \<and>
    providerName route = ''openai'' \<and> legacy route
      \<longrightarrow> fst (getProviderClient srv (providerName route) (provider route) (legacy route)) = None) \<and>
   (KeyRotator.apiKeys rot = []
      \<longrightarrow> trace (rotationPath fl rnd up rot codes) = [] \<and>
          returned (rotationPath fl rnd up rot codes) =
            Inl (Error ''All API keys exhausted without clear error'')) \<and>
   (map_of hdrs ''x-goog-api-key'' = Some k \<and> k \<noteq> []
      \<longrightarrow> GeminiClient_makeRequest rnd up rot hdrs codes =
            Direct (case up 0 (Str k) of Resolved r \<Rightarrow> Inr r | Rejected err \<Rightarrow> Inl err))"
proof -
  let ?a = "map_of reqHeaders (authHeaderName (routeInfo.apiType route))"
  let ?g = "getProviderClient srv (providerName route) (provider route) (legacy route)"
  have p0: "handleRoute rnd up srv route reqHeaders = None"
    if "parseStatusCodesFromAuth ?a = None"
    using that by (simp add: handleRoute_def)
  have p1: "handleRoute rnd up srv route reqHeaders =
              Some (SentError 500 ''Internal server error'', srv)"
    if "parseStatusCodesFromAuth ?a = Some (Inl e)"
    using that by (simp add: handleRoute_def)
  have a: "map_option fst (handleRoute rnd up srv route reqHeaders) =
             Some (SentError 503 (''Provider '' @ apos @ providerName route @ apos @ '' not configured''))"
    if h: "parseStatusCodesFromAuth ?a = Some (Inr custom)" "validateAccessKey srv (providerName route) ?a"
      "forwardedHeaders reqHeaders (routeInfo.apiType route) = Inr hdrs"
      and n: "fst ?g = None"
    using handleRoute_parsed[OF h, of rnd up] n by (cases ?g) simp
  have e: "map_option fst (handleRoute rnd up srv route reqHeaders) =
             Some (SentError 500 ''Internal server error'')"
    if h: "parseStatusCodesFromAuth ?a = Some (Inr custom)" "validateAccessKey srv (providerName route) ?a"
      "forwardedHeaders reqHeaders (routeInfo.apiType route) = Inr hdrs"
      and g: "fst ?g = Some cl"
      and cl: "cl = OpenAIClient rot url \<or>
           (cl = GeminiClient rot url \<and> map_of hdrs ''x-goog-api-key'' \<in> {None, Some []})"
      and k: "KeyRotator.apiKeys rot = []"
  proof -
    obtain srv' where g': "?g = (Some cl, srv')" using g by (cases ?g) auto
    show ?thesis
      using handleRoute_parsed[OF h, of rnd up]
        client_empty_pool[OF cl k, of rnd up "map_option statusCodeSet custom"]
      by (simp add: g')
  qed
  have f: "map_option fst (handleRoute rnd up srv route reqHeaders) =
             Some (case up 0 (Str k) of
                     Resolved r \<Rightarrow> Proxied r
                   | Rejected err \<Rightarrow> SentError 500 ''Internal server error'')"
    if h: "parseStatusCodesFromAuth ?a = Some (Inr custom)" "validateAccessKey srv (providerName route) ?a"
      "forwardedHeaders reqHeaders (routeInfo.apiType route) = Inr hdrs"
      and g: "fst ?g = Some (GeminiClient rot url)"
      and k: "map_of hdrs ''x-goog-api-key'' = Some k" "k \<noteq> []"
  proof -
    obtain srv' where g': "?g = (Some (GeminiClient rot url), srv')" using g by (cases ?g) auto
    show ?thesis
      using handleRoute_parsed[OF h, of rnd up]
        gemini_client_key[OF k, of rnd up rot "map_option statusCodeSet custom"]
      by (simp add: g' clientMakeRequest_def split: attempt.splits)
  qed
  have b: "fst ?g = None"
    if "srv = startServer cfg [] geminiBaseUrl openaiApiKeys openaiBaseUrl"
      "providerName route = ''gemini''" "legacy route"
    using that by (simp add: getProviderClient_def startServer_def)
  have c: "fst ?g = None"
    if "srv = startServer cfg geminiApiKeys geminiBaseUrl [] openaiBaseUrl"
      "providerName route = ''openai''" "legacy route"
    using that by (simp add: getProviderClient_def startServer_def)
  have d: "trace (rotationPath fl rnd up rot codes) = [] \<and>
           returned (rotationPath fl rnd up rot codes) =
             Inl (Error ''All API keys exhausted without clear error'')"
    if "KeyRotator.apiKeys rot = []"
    using that by (rule rotate_empty_pool)
  have i: "GeminiClient_makeRequest rnd up rot hdrs codes =
            Direct (case up 0 (Str k) of Resolved r \<Rightarrow> Inr r | Rejected err \<Rightarrow> Inl err)"
    if "map_of hdrs ''x-goog-api-key'' = Some k" "k \<noteq> []"
    using that by (rule gemini_client_key)
  show ?thesis
    apply (intro conjI impI)
    subgoal by (rule p0)
    subgoal by (rule p1)
    subgoal by (rule a) blast+
    subgoal by (rule e) blast+
    subgoal by (rule f) blast+
    subgoal by (rule b) blast+
    subgoal by (rule c) blast+
    subgoal using d by blast
    subgoal using d by blast
    subgoal by (rule i) blast+
    done
qed

theorem empty_pool_dispatch_witness:
  "map_option fst
     (handleRoute (\<lambda>i. 0) (\<lambda>n k. Rejected (Error ''unreachable''))
          (startServer Map.empty [] ''https://generativelanguage.googleapis.com''
             [''sk-1''] ''https://api.openai.com'')
          \<lparr>providerName = ''gemini'', apiType = ''gemini'', provider = None, legacy = True\<rparr>
          [(''accept'', ''*/*'')])
     = Some (SentError 503 (''Provider '' @ apos @ ''gemini'' @ apos @ '' not configured''))"
proof -
  let ?srv = "startServer Map.empty [] ''https://generativelanguage.googleapis.com''
             [''sk-1''] ''https://api.openai.com''"
  let ?route = "\<lparr>providerName = ''gemini'', apiType = ''gemini'', provider = None, legacy = True\<rparr>"
  let ?h = "[(''accept'', ''*/*'')]"
  have p: "parseStatusCodesFromAuth (map_of ?h (authHeaderName (routeInfo.apiType ?route))) =
             Some (Inr None)"
    by (simp add: authHeaderName_def parseStatusCodesFromAuth_def)
  have v: "validateAccessKey ?srv (providerName ?route)
             (map_of ?h (authHeaderName (routeInfo.apiType ?route)))"
    by (simp add: validateAccessKey_def startServer_def)
  have f: "forwardedHeaders ?h (routeInfo.apiType ?route) = Inr ?h" by code_simp
  have g: "fst (getProviderClient ?srv (providerName ?route) (provider ?route) (legacy ?route)) = None"
    by (simp add: getProviderClient_def startServer_def)
  note t = empty_pool_dispatch[of ?h ?route "(\<lambda>i. 0)" "(\<lambda>n k. Rejected (Error ''unreachable''))" ?srv
      _ None ?h]
  from t[THEN conjunct2, THEN conjunct2, THEN conjunct1, THEN mp, OF conjI[OF p conjI[OF v f]],
      THEN conjunct1, THEN mp, OF g]
  show ?thesis by simp
qed

text \<open>
  C6 as stated fails. A provider record without keys is given a client: the call of an
  OpenAI client throws and the answer is 500, not 503; a Gemini client that is given a
  key of the caller's calls the upstream although its pool is empty. And a header whose
  status codes overflow the \<open>Set\<close> is answered with 500 on a route without client.
\<close>

theorem empty_pool_dispatch_counterexample:
  "map_option fst
     (handleRoute (\<lambda>i. 0) (\<lambda>n k. Rejected (Error ''unreachable''))
          \<lparr>config = Map.empty, geminiClient = None, openaiClient = None,
           providerClients = Map.empty\<rparr>
          \<lparr>providerName = ''groq'', apiType = ''openai'',
           provider = Some \<lparr>provider.apiType = ''openai'', keys = [],
                            baseUrl = ''https://api.groq.com/openai/v1'', accessKey = None\<rparr>,
           legacy = False\<rparr>
          [(''accept'', ''*/*'')])
     = Some (SentError 500 ''Internal server error'') \<and>
   returned (OpenAIClient_makeRequest (\<lambda>i. 0) (\<lambda>n k. Rejected (Error ''unreachable''))
          \<lparr>KeyRotator.apiKeys = [], lastFailedKey = None\<rparr> None)
     = Inl (Error ''All API keys exhausted without clear error'') \<and>
   map_option fst
     (handleRoute (\<lambda>i. 0)
          (\<lambda>n k. Resolved \<lparr>statusCode = 200, headers = [], data = ''called with '' @ dq\<rparr>)
          \<lparr>config = Map.empty, geminiClient = None, openaiClient = None,
           providerClients = Map.empty\<rparr>
          \<lparr>providerName = ''vertex'', apiType = ''gemini'',
           provider = Some \<lparr>provider.apiType = ''gemini'', keys = [],
                            baseUrl = ''https://generativelanguage.googleapis.com'', accessKey = None\<rparr>,
           legacy = False\<rparr>
          [(''x-goog-api-key'', ''AIza-caller'')])
     = Some (Proxied \<lparr>statusCode = 200, headers = [], data = ''called with '' @ dq\<rparr>) \<and>
   handleRoute (\<lambda>i. 0) (\<lambda>n k. Rejected (Error ''unreachable''))
          \<lparr>config = Map.empty, geminiClient = None, openaiClient = None,
           providerClients = Map.empty\<rparr>
          \<lparr>providerName = ''openai'', apiType = ''openai'', provider = None, legacy = True\<rparr>
          [(''authorization'', ''Bearer [STATUS_CODES:0-16777216]'')]
     = Some (SentError 500 ''Internal server error'',
             \<lparr>config = Map.empty, geminiClient = None, openaiClient = None,
              providerClients = Map.empty\<rparr>)"
proof -
  have 1: "map_option fst
     (handleRoute (\<lambda>i. 0) (\<lambda>n k. Rejected (Error ''unreachable''))
          \<lparr>config = Map.empty, geminiClient = None, openaiClient = None,
           providerClients = Map.empty\<rparr>
          \<lparr>providerName = ''groq'', apiType = ''openai'',
           provider = Some \<lparr>provider.apiType = ''openai'', keys = [],
                            baseUrl = ''https://api.groq.com/openai/v1'', accessKey = None\<rparr>,
           legacy = False\<rparr>
          [(''accept'', ''*/*'')])
     = Some (SentError 500 ''Internal server error'')"
    by code_simp
  have 2: "returned (OpenAIClient_makeRequest (\<lambda>i. 0) (\<lambda>n k. Rejected (Error ''unreachable''))
          \<lparr>KeyRotator.apiKeys = [], lastFailedKey = None\<rparr> None)
     = Inl (Error ''All API keys exhausted without clear error'')"
    by code_simp
  have 3: "map_option fst
     (handleRoute (\<lambda>i. 0)
          (\<lambda>n k. Resolved \<lparr>statusCode = 200, headers = [], data = ''called with '' @ dq\<rparr>)
          \<lparr>config = Map.empty, geminiClient = None, openaiClient = None,
           providerClients = Map.empty\<rparr>
          \<lparr>providerName = ''vertex'', apiType = ''gemini'',
           provider = Some \<lparr>provider.apiType = ''gemini'', keys = [],
                            baseUrl = ''https://generativelanguage.googleapis.com'', accessKey = None\<rparr>,
           legacy = False\<rparr>
          [(''x-goog-api-key'', ''AIza-caller'')])
     = Some (Proxied \<lparr>statusCode = 200, headers = [], data = ''called with '' @ dq\<rparr>)"
    by code_simp
  have 4: "handleRoute (\<lambda>i. 0) (\<lambda>n k. Rejected (Error ''unreachable''))
          \<lparr>config = Map.empty, geminiClient = None, openaiClient = None,
           providerClients = Map.empty\<rparr>
          \<lparr>providerName = ''openai'', apiType = ''openai'', provider = None, legacy = True\<rparr>
          [(''authorization'', ''Bearer [STATUS_CODES:0-16777216]'')]
     = Some (SentError 500 ''Internal server error'',
             \<lparr>config = Map.empty, geminiClient = None, openaiClient = None,
              providerClients = Map.empty\<rparr>)"
    using overflow_example by (simp add: handleRoute_def authHeaderName_def)
  show ?thesis using 1 2 3 4 by (intro conjI)
qed

end
